theory Spec2Isabelle
  imports Main "HOL-Library.Stream" "HOL-Library.Multiset" "HOL-Library.AList"
begin

section \<open>Server pooling of ldap3 (ldap3/core/pooling.py)\<close>

text \<open>
  The module holds two classes. A \<open>ServerPool\<close> owns the list of candidate servers, the
  policy (strategy, active, exhaust) and a dictionary from connections to their
  \<open>ServerPoolState\<close>. A \<open>ServerPoolState\<close> holds a private copy of the server list and the
  index of the server used last; \<open>get_server\<close> moves that index according to the strategy.

  Everything the Python does beyond computing a value is explicit here: exceptions are
  values of \<open>error\<close>, the random generator and the network that answers
  \<open>check_availability\<close> are fields of a \<open>world\<close> that is passed through, objects that are
  mutated in place are returned updated (also when the call raises), and the two
  \<open>while True\<close> loops are partial functions, where \<open>None\<close> stands for a call that never
  returns.
\<close>

subsection \<open>Exceptions\<close>

datatype error =
    ValueError
  | IndexError
  | LDAPUnknownStrategyError string
  | LDAPServerPoolError string
  | LDAPServerPoolExhaustedError string

subsection \<open>The outside world: random numbers and availability probes\<close>

text \<open>
  \<open>rng\<close> is the stream of raw values the random generator will deliver, \<open>net\<close> the stream
  of answers of the network: the k-th call of \<open>check_availability\<close> made by the program
  is answered by the k-th predicate, applied to the server that is probed, so answers may
  change from one probe to the next. \<open>probed\<close> records the servers probed so far, in
  order.
\<close>

record 'srv world =
  rng :: "nat stream"
  net :: "('srv \<Rightarrow> bool) stream"
  probed :: "'srv list"

text \<open>
  \<open>random.randint(a, b)\<close>: an integer of the inclusive range \<open>a .. b\<close>; ValueError on an
  empty range, in which case no random value is consumed.
\<close>

definition randint :: "int \<Rightarrow> int \<Rightarrow> 'srv world \<Rightarrow> error + int \<times> 'srv world" where
  "randint a b w =
     (if b < a then Inl ValueError
      else Inr (a + int (shd (rng w) mod nat (b - a + 1)), w\<lparr>rng := stl (rng w)\<rparr>))"

text \<open>\<open>server.check_availability()\<close>: one probe of the network.\<close>

definition check_availability :: "'srv \<Rightarrow> 'srv world \<Rightarrow> bool \<times> 'srv world" where
  "check_availability server w =
     (shd (net w) server, w\<lparr>net := stl (net w), probed := probed w @ [server]\<rparr>)"

subsection \<open>Python lists\<close>

text \<open>\<open>xs[i]\<close> for an index that is never negative.\<close>

definition getitem :: "'a list \<Rightarrow> nat \<Rightarrow> error + 'a" where
  "getitem xs i = (if i < length xs then Inr (xs ! i) else Inl IndexError)"

text \<open>\<open>xs.pop(i)\<close>: the element and the remaining list; negative indices count from the end.\<close>

definition list_pop :: "'a list \<Rightarrow> int \<Rightarrow> error + 'a \<times> 'a list" where
  "list_pop xs i =
     (let n = int (length xs); j = (if i < 0 then i + n else i)
      in if 0 \<le> j \<and> j < n
         then Inr (xs ! nat j, take (nat j) xs @ drop (Suc (nat j)) xs)
         else Inl IndexError)"

text \<open>\<open>xs.index(x)\<close>: the position of the first element equal to \<open>x\<close>, ValueError if none.\<close>

fun list_index :: "'a list \<Rightarrow> 'a \<Rightarrow> error + nat" where
  "list_index [] x = Inl ValueError"
| "list_index (y # ys) x =
     (if y = x then Inr 0
      else (case list_index ys x of Inl e \<Rightarrow> Inl e | Inr i \<Rightarrow> Inr (Suc i)))"

subsection \<open>The two classes\<close>

text \<open>
  The strategy constants come from the package's \<open>__init__\<close>, which is not part of the
  sources at hand; \<open>POOLING_STRATEGIES\<close> lists the three known ones. \<open>OTHER_STRATEGY\<close>
  stands for any other value a caller may pass.
\<close>

datatype strategy = FIRST | ROUND_ROBIN | RANDOM | OTHER_STRATEGY

definition POOLING_STRATEGIES :: "strategy list" where
  "POOLING_STRATEGIES = [FIRST, ROUND_ROBIN, RANDOM]"

text \<open>
  \<open>ServerPoolState\<close>. The back reference \<open>server_pool\<close> is not a field: the methods that
  read it take the pool as an argument. \<open>initialize_time\<close> is never read and left out.
  \<open>last_used_server\<close> is a natural number: every value assigned to it is a result of
  \<open>randint(0, _)\<close>, of \<open>list.index\<close>, a loop counter that starts at 0 or at the cursor
  plus one, or the cursor plus one.
\<close>

record 'srv ServerPoolState =
  servers :: "'srv list"
  strategy :: strategy
  last_used_server :: nat

text \<open>
  \<open>ServerPool\<close>. Its attributes \<open>servers\<close> and \<open>strategy\<close> are named \<open>pool_servers\<close> and
  \<open>pool_strategy\<close> here, to keep them apart from those of the state. The dictionary
  \<open>pool_states\<close> is an association list in insertion order, the order in which a
  dictionary is iterated.
\<close>

record ('c, 'srv) ServerPool =
  pool_servers :: "'srv list"
  pool_states :: "('c \<times> 'srv ServerPoolState) list"
  active :: bool
  exhaust :: bool
  pool_strategy :: strategy

subsection \<open>ServerPoolState\<close>

text \<open>
  \<open>refresh\<close>: copies the pool's servers one by one, then draws a new cursor. When the copy
  is empty \<open>randint(0, -1)\<close> raises, after the snapshot has been replaced.
\<close>

definition refresh ::
  "'srv list \<Rightarrow> 'srv ServerPoolState \<Rightarrow> 'srv world
     \<Rightarrow> (error + unit) \<times> 'srv ServerPoolState \<times> 'srv world" where
  "refresh poolservers st w =
     (let st1 = st\<lparr>servers := foldl (\<lambda>acc server. acc @ [server]) [] poolservers\<rparr>
      in case randint 0 (int (length (servers st1)) - 1) w of
           Inl e \<Rightarrow> (Inl e, st1, w)
         | Inr (r, w1) \<Rightarrow> (Inr (), st1\<lparr>last_used_server := nat r\<rparr>, w1))"

text \<open>
  \<open>ServerPoolState.__init__\<close>: \<open>refresh\<close>, then a second draw of the cursor. The attribute
  \<open>last_used_server\<close> does not exist before \<open>refresh\<close> assigns it; \<open>refresh\<close> never reads
  it, and when \<open>refresh\<close> raises, the object is dropped, so the 0 below is never seen.
\<close>

definition ServerPoolState_init ::
  "('c, 'srv) ServerPool \<Rightarrow> 'srv world \<Rightarrow> (error + 'srv ServerPoolState) \<times> 'srv world" where
  "ServerPoolState_init server_pool w =
     (case refresh (pool_servers server_pool)
             \<lparr>servers = [], strategy = pool_strategy server_pool, last_used_server = 0\<rparr> w of
        (Inl e, st1, w1) \<Rightarrow> (Inl e, w1)
      | (Inr u, st1, w1) \<Rightarrow>
          (case randint 0 (int (length (servers st1)) - 1) w1 of
             Inl e \<Rightarrow> (Inl e, w1)
           | Inr (r, w2) \<Rightarrow> (Inr (st1\<lparr>last_used_server := nat r\<rparr>), w2)))"

definition get_current_server :: "'srv ServerPoolState \<Rightarrow> error + 'srv" where
  "get_current_server st = getitem (servers st) (last_used_server st)"

text \<open>
  One inner loop of \<open>find_active_server\<close>:
  \<^verbatim>\<open>while index < bound: if self.servers[index].check_availability(): break; index += 1\<close>
  \<open>Inr (Some index)\<close> is the \<open>break\<close>, \<open>Inr None\<close> the \<open>else\<close> clause of the loop.
\<close>

function scan ::
  "'srv list \<Rightarrow> nat \<Rightarrow> nat \<Rightarrow> 'srv world \<Rightarrow> (error + nat option) \<times> 'srv world" where
  "scan srvs bound index w =
     (if index < bound then
        (case getitem srvs index of
           Inl e \<Rightarrow> (Inl e, w)
         | Inr server \<Rightarrow>
             (let (live, w1) = check_availability server w
              in if live then (Inr (Some index), w1)
                 else scan srvs bound (index + 1) w1))
      else (Inr None, w))"
  by pat_completeness auto
termination
  by (relation "measure (\<lambda>(srvs, bound, index, w). bound - index)") auto

declare scan.simps [simp del]

text \<open>
  \<open>find_active_server\<close>: a pass from \<open>starting\<close> to the end of the list, then from 0 up
  to \<open>starting\<close>; when nothing answered, the pass is repeated unless \<open>exhaust\<close> is set.
\<close>

partial_function (option) find_active_server ::
  "'srv list \<Rightarrow> nat \<Rightarrow> bool \<Rightarrow> 'srv world \<Rightarrow> ((error + nat) \<times> 'srv world) option" where
  "find_active_server srvs starting exhst w =
     (case scan srvs (length srvs) starting w of
        (Inl e, w1) \<Rightarrow> Some (Inl e, w1)
      | (Inr (Some index), w1) \<Rightarrow> Some (Inr index, w1)
      | (Inr None, w1) \<Rightarrow>
          (case scan srvs starting 0 w1 of
             (Inl e, w2) \<Rightarrow> Some (Inl e, w2)
           | (Inr (Some index), w2) \<Rightarrow> Some (Inr index, w2)
           | (Inr None, w2) \<Rightarrow>
               if exhst
               then Some (Inl (LDAPServerPoolExhaustedError
                                 ''no active server available in server pool''), w2)
               else find_active_server srvs starting exhst w2))"

text \<open>
  The inner loop of \<open>find_active_random_server\<close>: pops a random element of the working
  copy and probes it, until one answers or the copy is empty.
\<close>

function random_pass ::
  "'srv list \<Rightarrow> 'srv list \<Rightarrow> 'srv world \<Rightarrow> (error + nat option) \<times> 'srv world" where
  "random_pass srvs temp_list w =
     (if temp_list \<noteq> [] then
        (case randint 0 (int (length temp_list) - 1) w of
           Inl e \<Rightarrow> (Inl e, w)
         | Inr (r, w1) \<Rightarrow>
             (case list_pop temp_list r of
                Inl e \<Rightarrow> (Inl e, w1)
              | Inr (server, rest) \<Rightarrow>
                  (let (live, w2) = check_availability server w1
                   in if live
                      then (case list_index srvs server of
                              Inl e \<Rightarrow> (Inl e, w2)
                            | Inr i \<Rightarrow> (Inr (Some i), w2))
                      else random_pass srvs rest w2)))
      else (Inr None, w))"
  by pat_completeness auto
termination
proof (relation "measure (\<lambda>(srvs, temp_list, w). length temp_list)")
  show "wf (measure (\<lambda>(srvs, temp_list, w). length temp_list))"
    by simp
next
  fix srvs temp_list :: "'srv list" and w :: "'srv world" and x2 x1 w1 x2a server rest x y
  assume "list_pop temp_list x1 = Inr x2a" and "(server, rest) = x2a"
  then have "length rest < length temp_list"
    by (auto simp: list_pop_def Let_def split: if_splits)
  then show "((srvs, rest, y), srvs, temp_list, w)
               \<in> measure (\<lambda>(srvs, temp_list, w). length temp_list)"
    by simp
qed

declare random_pass.simps [simp del]

partial_function (option) find_active_random_server ::
  "'srv list \<Rightarrow> bool \<Rightarrow> 'srv world \<Rightarrow> ((error + nat) \<times> 'srv world) option" where
  "find_active_random_server srvs exhst w =
     (case random_pass srvs srvs w of
        (Inl e, w1) \<Rightarrow> Some (Inl e, w1)
      | (Inr (Some index), w1) \<Rightarrow> Some (Inr index, w1)
      | (Inr None, w1) \<Rightarrow>
          if exhst
          then Some (Inl (LDAPServerPoolExhaustedError
                            ''no random active server in server pool''), w1)
          else find_active_random_server srvs exhst w1)"

text \<open>
  \<open>get_server\<close>. Each branch assigns the cursor; the common tail returns
  \<open>self.servers[self.last_used_server]\<close>. A scan that raises leaves the cursor as it was.
\<close>

definition return_server ::
  "'srv ServerPoolState \<Rightarrow> 'srv world
     \<Rightarrow> ((error + 'srv) \<times> 'srv ServerPoolState \<times> 'srv world) option" where
  "return_server st w = Some (getitem (servers st) (last_used_server st), st, w)"

definition assign_found ::
  "'srv ServerPoolState \<Rightarrow> ((error + nat) \<times> 'srv world) option
     \<Rightarrow> ((error + 'srv) \<times> 'srv ServerPoolState \<times> 'srv world) option" where
  "assign_found st found =
     (case found of
        None \<Rightarrow> None
      | Some (Inl e, w1) \<Rightarrow> Some (Inl e, st, w1)
      | Some (Inr index, w1) \<Rightarrow> return_server (st\<lparr>last_used_server := index\<rparr>) w1)"

definition get_server ::
  "('c, 'srv) ServerPool \<Rightarrow> 'srv ServerPoolState \<Rightarrow> 'srv world
     \<Rightarrow> ((error + 'srv) \<times> 'srv ServerPoolState \<times> 'srv world) option" where
  "get_server server_pool st w =
     (if servers st \<noteq> [] then
        (if pool_strategy server_pool = FIRST then
           (if active server_pool
            then assign_found st (find_active_server (servers st) 0 (exhaust server_pool) w)
            else return_server (st\<lparr>last_used_server := 0\<rparr>) w)
         else if pool_strategy server_pool = ROUND_ROBIN then
           (if active server_pool
            then assign_found st
                   (find_active_server (servers st) (last_used_server st + 1)
                      (exhaust server_pool) w)
            else return_server
                   (st\<lparr>last_used_server :=
                         (if last_used_server st + 1 < length (servers st)
                          then last_used_server st + 1 else 0)\<rparr>) w)
         else if pool_strategy server_pool = RANDOM then
           (if active server_pool
            then assign_found st
                   (find_active_random_server (servers st) (exhaust server_pool) w)
            else (case randint 0 (int (length (servers st))) w of
                    Inl e \<Rightarrow> Some (Inl e, st, w)
                  | Inr (r, w1) \<Rightarrow> return_server (st\<lparr>last_used_server := nat r\<rparr>) w1))
         else Some (Inl (LDAPUnknownStrategyError ''unknown server pooling strategy''), st, w))
      else Some (Inl (LDAPServerPoolError ''no servers in server pool''), st, w))"

definition ServerPoolState_len :: "'srv ServerPoolState \<Rightarrow> nat" where
  "ServerPoolState_len st = length (servers st)"

subsection \<open>ServerPool\<close>

text \<open>
  The argument of \<open>add\<close> and of the constructor is dynamically typed: a \<open>Server\<close>, a
  string, a sequence, \<open>None\<close> or anything else; the elements of a sequence are servers,
  strings or anything else. The class \<open>Server\<close> is not part of the sources at hand:
  servers are values of an arbitrary type \<open>'srv\<close>, compared with \<open>=\<close>, and the constructor
  \<open>Server(address)\<close> is the parameter \<open>mk_server\<close> of the functions that call it.
\<close>

datatype 'srv element = ElemServer 'srv | ElemString string | ElemOther

datatype 'srv argument =
    ArgServer 'srv
  | ArgString string
  | ArgSequence "'srv element list"
  | ArgNone
  | ArgOther

text \<open>The loop that notifies every registered state; it stops at the first that raises.\<close>

fun refresh_all ::
  "'srv list \<Rightarrow> ('c \<times> 'srv ServerPoolState) list \<Rightarrow> 'srv world
     \<Rightarrow> (error + unit) \<times> ('c \<times> 'srv ServerPoolState) list \<times> 'srv world" where
  "refresh_all poolservers [] w = (Inr (), [], w)"
| "refresh_all poolservers ((connection, st) # states) w =
     (case refresh poolservers st w of
        (Inl e, st1, w1) \<Rightarrow> (Inl e, (connection, st1) # states, w1)
      | (Inr u, st1, w1) \<Rightarrow>
          (case refresh_all poolservers states w1 of
             (r, states1, w2) \<Rightarrow> (r, (connection, st1) # states1, w2)))"

definition notify ::
  "('c, 'srv) ServerPool \<Rightarrow> 'srv world \<Rightarrow> (error + unit) \<times> ('c, 'srv) ServerPool \<times> 'srv world" where
  "notify server_pool w =
     (case refresh_all (pool_servers server_pool) (pool_states server_pool) w of
        (r, states1, w1) \<Rightarrow> (r, server_pool\<lparr>pool_states := states1\<rparr>, w1))"

text \<open>The loop of \<open>add\<close> over a sequence: appends until an element is neither kind.\<close>

fun add_elements ::
  "(string \<Rightarrow> 'srv) \<Rightarrow> 'srv list \<Rightarrow> 'srv element list \<Rightarrow> (error + unit) \<times> 'srv list" where
  "add_elements mk_server srvs [] = (Inr (), srvs)"
| "add_elements mk_server srvs (ElemServer server # rest) =
     add_elements mk_server (srvs @ [server]) rest"
| "add_elements mk_server srvs (ElemString address # rest) =
     add_elements mk_server (srvs @ [mk_server address]) rest"
| "add_elements mk_server srvs (ElemOther # rest) =
     (Inl (LDAPServerPoolError ''server in ServerPool must be a Server''), srvs)"

definition ServerPool_add ::
  "(string \<Rightarrow> 'srv) \<Rightarrow> ('c, 'srv) ServerPool \<Rightarrow> 'srv argument \<Rightarrow> 'srv world
     \<Rightarrow> (error + unit) \<times> ('c, 'srv) ServerPool \<times> 'srv world" where
  "ServerPool_add mk_server server_pool arg w =
     (case arg of
        ArgServer server \<Rightarrow>
          notify (if server \<notin> set (pool_servers server_pool)
                  then server_pool\<lparr>pool_servers := pool_servers server_pool @ [server]\<rparr>
                  else server_pool) w
      | ArgString address \<Rightarrow>
          notify (server_pool\<lparr>pool_servers := pool_servers server_pool @ [mk_server address]\<rparr>) w
      | ArgSequence elements \<Rightarrow>
          (case add_elements mk_server (pool_servers server_pool) elements of
             (Inl e, srvs) \<Rightarrow> (Inl e, server_pool\<lparr>pool_servers := srvs\<rparr>, w)
           | (Inr u, srvs) \<Rightarrow> notify (server_pool\<lparr>pool_servers := srvs\<rparr>) w)
      | ArgNone \<Rightarrow>
          (Inl (LDAPServerPoolError ''server must be a Server or a list of Server''),
           server_pool, w)
      | ArgOther \<Rightarrow>
          (Inl (LDAPServerPoolError ''server must be a Server or a list of Server''),
           server_pool, w))"

definition ServerPool_remove ::
  "('c, 'srv) ServerPool \<Rightarrow> 'srv \<Rightarrow> 'srv world
     \<Rightarrow> (error + unit) \<times> ('c, 'srv) ServerPool \<times> 'srv world" where
  "ServerPool_remove server_pool server w =
     (if server \<in> set (pool_servers server_pool)
      then notify (server_pool\<lparr>pool_servers := remove1 server (pool_servers server_pool)\<rparr>) w
      else (Inl (LDAPServerPoolError ''server not in server pool''), server_pool, w))"

text \<open>
  The constructor. A server, a string or a sequence goes through \<open>add\<close> (a string is made
  a \<open>Server\<close> first); any other value of \<open>servers\<close>, \<open>None\<close> included, is skipped.
\<close>

definition ServerPool_init ::
  "(string \<Rightarrow> 'srv) \<Rightarrow> 'srv argument \<Rightarrow> strategy \<Rightarrow> bool \<Rightarrow> bool \<Rightarrow> 'srv world
     \<Rightarrow> (error + ('c, 'srv) ServerPool) \<times> 'srv world" where
  "ServerPool_init mk_server srvs strat actv exhst w =
     (if strat \<notin> set POOLING_STRATEGIES
      then (Inl (LDAPUnknownStrategyError ''unknown pooling strategy''), w)
      else if exhst \<and> \<not> actv
      then (Inl (LDAPServerPoolError
                   ''pools can be exhausted only when checking for active servers''), w)
      else
        (let p0 = \<lparr>pool_servers = [], pool_states = [], active = actv, exhaust = exhst,
                   pool_strategy = strat\<rparr>;
             added =
               (case srvs of
                  ArgServer server \<Rightarrow> ServerPool_add mk_server p0 srvs w
                | ArgSequence elements \<Rightarrow> ServerPool_add mk_server p0 srvs w
                | ArgString address \<Rightarrow> ServerPool_add mk_server p0 (ArgServer (mk_server address)) w
                | ArgNone \<Rightarrow> (Inr (), p0, w)
                | ArgOther \<Rightarrow> (Inr (), p0, w))
         in case added of
              (Inl e, p1, w1) \<Rightarrow> (Inl e, w1)
            | (Inr u, p1, w1) \<Rightarrow> (Inr p1, w1)))"

definition ServerPool_len :: "('c, 'srv) ServerPool \<Rightarrow> nat" where
  "ServerPool_len server_pool = length (pool_servers server_pool)"

definition ServerPool_initialize ::
  "('c, 'srv) ServerPool \<Rightarrow> 'c \<Rightarrow> 'srv world
     \<Rightarrow> (error + unit) \<times> ('c, 'srv) ServerPool \<times> 'srv world" where
  "ServerPool_initialize server_pool connection w =
     (case ServerPoolState_init server_pool w of
        (Inl e, w1) \<Rightarrow> (Inl e, server_pool, w1)
      | (Inr pool_state, w1) \<Rightarrow>
          (Inr (),
           server_pool\<lparr>pool_states :=
             AList.update connection pool_state (pool_states server_pool)\<rparr>,
           w1))"

definition ServerPool_get_server ::
  "('c, 'srv) ServerPool \<Rightarrow> 'c \<Rightarrow> 'srv world
     \<Rightarrow> ((error + 'srv) \<times> ('c, 'srv) ServerPool \<times> 'srv world) option" where
  "ServerPool_get_server server_pool connection w =
     (case map_of (pool_states server_pool) connection of
        Some st \<Rightarrow>
          (case get_server server_pool st w of
             None \<Rightarrow> None
           | Some (r, st1, w1) \<Rightarrow>
               Some (r,
                     server_pool\<lparr>pool_states :=
                       AList.update connection st1 (pool_states server_pool)\<rparr>,
                     w1))
      | None \<Rightarrow>
          Some (Inl (LDAPServerPoolError ''connection not in ServerPoolState''), server_pool, w))"

definition ServerPool_get_current_server ::
  "('c, 'srv) ServerPool \<Rightarrow> 'c \<Rightarrow> error + 'srv" where
  "ServerPool_get_current_server server_pool connection =
     (case map_of (pool_states server_pool) connection of
        Some st \<Rightarrow> get_current_server st
      | None \<Rightarrow> Inl (LDAPServerPoolError ''connection not in ServerPoolState''))"

subsection \<open>Notions used to state the properties\<close>

text \<open>
  The order in which a circular scan that starts at \<open>s\<close> visits the indices of a list of
  length \<open>n\<close>: \<open>s, s + 1, ..., n - 1, 0, ..., s - 1\<close>.
\<close>

definition circular_order :: "nat \<Rightarrow> nat \<Rightarrow> nat list" where
  "circular_order n s = [s..<n] @ [0..<s]"

text \<open>The servers that the elements of a sequence stand for, elements of no use skipped.\<close>

definition element_servers :: "(string \<Rightarrow> 'srv) \<Rightarrow> 'srv element list \<Rightarrow> 'srv list" where
  "element_servers mk_server elements =
     concat (map (\<lambda>el. case el of
                          ElemServer server \<Rightarrow> [server]
                        | ElemString address \<Rightarrow> [mk_server address]
                        | ElemOther \<Rightarrow> []) elements)"

text \<open>
  \<open>n\<close> consecutive calls of \<open>get_server\<close> for one connection; the results are collected
  in the order of the calls.
\<close>

fun get_server_times ::
  "nat \<Rightarrow> ('c, 'srv) ServerPool \<Rightarrow> 'c \<Rightarrow> 'srv world
     \<Rightarrow> ((error + 'srv) list \<times> ('c, 'srv) ServerPool \<times> 'srv world) option" where
  "get_server_times 0 server_pool connection w = Some ([], server_pool, w)"
| "get_server_times (Suc n) server_pool connection w =
     (case ServerPool_get_server server_pool connection w of
        None \<Rightarrow> None
      | Some (r, p1, w1) \<Rightarrow>
          (case get_server_times n p1 connection w1 of
             None \<Rightarrow> None
           | Some (rs, p2, w2) \<Rightarrow> Some (r # rs, p2, w2)))"

text \<open>
  What one pass of the random scan over the working copy \<open>temp\<close> has done when it ends
  with \<open>r\<close>, having probed the servers \<open>ps\<close> in this order from the world \<open>w\<close>: without
  a result every element of the copy was probed once and none answered; with the result
  \<open>i\<close> the last server probed answered, the earlier ones did not, and \<open>i\<close> is what
  \<open>list.index\<close> gives for it.
\<close>

definition pass_outcome ::
  "'srv list \<Rightarrow> 'srv list \<Rightarrow> 'srv world \<Rightarrow> 'srv list \<Rightarrow> nat option \<Rightarrow> bool" where
  "pass_outcome srvs temp w ps r =
     (case r of
        None \<Rightarrow> mset ps = mset temp \<and> (\<forall>j<length ps. \<not> (net w !! j) (ps ! j))
      | Some i \<Rightarrow> ps \<noteq> [] \<and> mset ps \<subseteq># mset temp \<and> list_index srvs (last ps) = Inr i
                  \<and> (net w !! (length ps - 1)) (last ps)
                  \<and> (\<forall>j<length ps - 1. \<not> (net w !! j) (ps ! j)))"

text \<open>
  The same for a whole scan under \<open>exhaust\<close>, circular or random: it raises the exhaustion
  error after one probe of every server of the snapshot, none of which answered, or it
  returns the index of the server probed last, the only one that answered.
\<close>

definition scan_outcome ::
  "'srv list \<Rightarrow> 'srv world \<Rightarrow> 'srv list \<Rightarrow> error + nat \<Rightarrow> bool" where
  "scan_outcome srvs w ps r =
     (case r of
        Inl e \<Rightarrow> (\<exists>msg. e = LDAPServerPoolExhaustedError msg) \<and> mset ps = mset srvs
                 \<and> (\<forall>j<length ps. \<not> (net w !! j) (ps ! j))
      | Inr i \<Rightarrow> i < length srvs \<and> ps \<noteq> [] \<and> last ps = srvs ! i
                 \<and> (net w !! (length ps - 1)) (last ps)
                 \<and> mset ps \<subseteq># mset srvs
                 \<and> (\<forall>j<length ps - 1. \<not> (net w !! j) (ps ! j)))"

text \<open>The list of servers that \<open>add\<close> leaves behind, whether or not it raises.\<close>

definition after_add ::
  "(string \<Rightarrow> 'srv) \<Rightarrow> 'srv list \<Rightarrow> 'srv argument \<Rightarrow> 'srv list" where
  "after_add mk_server srvs arg =
     (case arg of
        ArgServer server \<Rightarrow> if server \<in> set srvs then srvs else srvs @ [server]
      | ArgString address \<Rightarrow> srvs @ [mk_server address]
      | ArgSequence elements \<Rightarrow>
          srvs @ element_servers mk_server (takeWhile (\<lambda>el. el \<noteq> ElemOther) elements)
      | ArgNone \<Rightarrow> srvs
      | ArgOther \<Rightarrow> srvs)"

section \<open>Properties\<close>

subsection \<open>Auxiliary facts\<close>

text \<open>
  The model of \<open>randint\<close> delivers the values of the inclusive range and no others, and
  every value of the range for a suitable state of the generator.
\<close>

lemma randint_range:
  "randint a b w = Inr (r, w') \<Longrightarrow> a \<le> r \<and> r \<le> b \<and> w' = w\<lparr>rng := stl (rng w)\<rparr>"
proof -
  assume h: "randint a b w = Inr (r, w')"
  then have ab: "a \<le> b" by (simp add: randint_def split: if_splits)
  then have pos: "0 < nat (b - a + 1)" by simp
  have "shd (rng w) mod nat (b - a + 1) < nat (b - a + 1)"
    using pos by (rule mod_less_divisor)
  then have "int (shd (rng w) mod nat (b - a + 1)) < b - a + 1"
    using ab by linarith
  then show ?thesis
    using h ab by (auto simp: randint_def)
qed

lemma randint_every_value:
  assumes "a \<le> r" "r \<le> b"
  shows "randint a b (w\<lparr>rng := nat (r - a) ## g\<rparr>) = Inr (r, w\<lparr>rng := g\<rparr>)"
proof -
  have "nat (r - a) < nat (b - a + 1)" using assms by simp
  then have "nat (r - a) mod nat (b - a + 1) = nat (r - a)" by simp
  then show ?thesis using assms by (simp add: randint_def)
qed

lemma foldl_snoc_copy: "foldl (\<lambda>acc server. acc @ [server]) ys xs = ys @ xs"
  by (induction xs arbitrary: ys) auto

lemma refresh_empty: "refresh [] st w = (Inl ValueError, st\<lparr>servers := []\<rparr>, w)"
  by (simp add: refresh_def randint_def)

lemma notify_pool_servers: "pool_servers (fst (snd (notify p w))) = pool_servers p"
  by (simp add: notify_def split: prod.splits)

lemma add_elements_prefix:
  "add_elements mk_server srvs elements =
     (if ElemOther \<in> set elements
      then Inl (LDAPServerPoolError ''server in ServerPool must be a Server'')
      else Inr (),
      srvs @ element_servers mk_server (takeWhile (\<lambda>el. el \<noteq> ElemOther) elements))"
  by (induction mk_server srvs elements rule: add_elements.induct)
     (auto simp: element_servers_def)

lemma scan_step_dead:
  assumes "index < bound" "index < length srvs" "\<not> shd (net w) (srvs ! index)"
  shows "scan srvs bound index w =
         scan srvs bound (Suc index) (w\<lparr>net := stl (net w), probed := probed w @ [srvs ! index]\<rparr>)"
  using assms by (subst scan.simps) (simp add: getitem_def check_availability_def)

lemma scan_step_live:
  assumes "index < bound" "index < length srvs" "shd (net w) (srvs ! index)"
  shows "scan srvs bound index w =
         (Inr (Some index), w\<lparr>net := stl (net w), probed := probed w @ [srvs ! index]\<rparr>)"
  using assms by (subst scan.simps) (simp add: getitem_def check_availability_def)

lemma scan_stop:
  "\<not> index < bound \<Longrightarrow> scan srvs bound index w = (Inr None, w)"
  by (subst scan.simps) simp

lemma scan_none:
  "bound \<le> length srvs \<Longrightarrow> index + n = bound \<Longrightarrow>
   \<forall>j < n. \<not> (net w !! j) (srvs ! (index + j)) \<Longrightarrow>
   scan srvs bound index w =
     (Inr None, w\<lparr>net := sdrop n (net w),
                  probed := probed w @ map (\<lambda>j. srvs ! (index + j)) [0..<n]\<rparr>)"
proof (induction n arbitrary: index w)
  case 0
  then show ?case by (simp add: scan_stop)
next
  case (Suc n)
  let ?w1 = "w\<lparr>net := stl (net w), probed := probed w @ [srvs ! index]\<rparr>"
  from Suc.prems have lt: "index < bound" "index < length srvs" by simp_all
  from Suc.prems have dead: "\<not> shd (net w) (srvs ! index)" by fastforce
  have later: "\<forall>j < n. \<not> (net ?w1 !! j) (srvs ! (Suc index + j))"
    using Suc.prems(3) by (auto dest: spec[where x = "Suc j" for j])
  have "scan srvs bound (Suc index) ?w1 =
      (Inr None, ?w1\<lparr>net := sdrop n (net ?w1),
                  probed := probed ?w1 @ map (\<lambda>j. srvs ! (Suc index + j)) [0..<n]\<rparr>)"
    using Suc.prems(1,2) later by (intro Suc.IH) simp_all
  then show ?case
    by (simp add: scan_step_dead[OF lt dead] map_upt_Suc del: upt_Suc)
qed

lemma scan_found:
  "bound \<le> length srvs \<Longrightarrow> index + k < bound \<Longrightarrow>
   \<forall>j < k. \<not> (net w !! j) (srvs ! (index + j)) \<Longrightarrow>
   (net w !! k) (srvs ! (index + k)) \<Longrightarrow>
   scan srvs bound index w =
     (Inr (Some (index + k)), w\<lparr>net := sdrop (Suc k) (net w),
                  probed := probed w @ map (\<lambda>j. srvs ! (index + j)) [0..<Suc k]\<rparr>)"
proof (induction k arbitrary: index w)
  case 0
  then show ?case by (simp add: scan_step_live)
next
  case (Suc k)
  let ?w1 = "w\<lparr>net := stl (net w), probed := probed w @ [srvs ! index]\<rparr>"
  from Suc.prems have lt: "index < bound" "index < length srvs" by simp_all
  from Suc.prems have dead: "\<not> shd (net w) (srvs ! index)" by fastforce
  have later: "\<forall>j < k. \<not> (net ?w1 !! j) (srvs ! (Suc index + j))"
    using Suc.prems(3) by (auto dest: spec[where x = "Suc j" for j])
  have live: "(net ?w1 !! k) (srvs ! (Suc index + k))"
    using Suc.prems(4) by simp
  have "scan srvs bound (Suc index) ?w1 =
      (Inr (Some (Suc index + k)), ?w1\<lparr>net := sdrop (Suc k) (net ?w1),
                  probed := probed ?w1 @ map (\<lambda>j. srvs ! (Suc index + j)) [0..<Suc k]\<rparr>)"
    using Suc.prems(1,2) later live by (intro Suc.IH) simp_all
  then show ?case
    by (simp add: scan_step_dead[OF lt dead] map_upt_Suc[of _ "Suc k"] del: upt_Suc)
qed

lemma circular_order_length: "s \<le> n \<Longrightarrow> length (circular_order n s) = n"
  by (simp add: circular_order_def)

lemma circular_order_nth:
  "s \<le> n \<Longrightarrow> j < n \<Longrightarrow>
   circular_order n s ! j = (if j < n - s then s + j else j - (n - s))"
  by (auto simp: circular_order_def nth_append)

lemma circular_order_front:
  "s \<le> n \<Longrightarrow> j < n - s \<Longrightarrow> circular_order n s ! j = s + j"
  by (simp add: circular_order_def nth_append)

lemma circular_order_wrap:
  "s \<le> n \<Longrightarrow> j < s \<Longrightarrow> circular_order n s ! (n - s + j) = j"
  by (auto simp: circular_order_def nth_append)

lemma circular_order_perm:
  "s \<le> n \<Longrightarrow> distinct (circular_order n s) \<and> set (circular_order n s) = {0..<n}"
  by (auto simp: circular_order_def)

lemma map_upt_split:
  "a \<le> b \<Longrightarrow> map f [0..<b] = map f [0..<a] @ map (\<lambda>j. f (a + j)) [0..<b - a]"
proof -
  assume ab: "a \<le> b"
  have "[0..<b] = [0..<a] @ [a..<b]"
    using ab by (metis le_add_diff_inverse upt_add_eq_append zero_le)
  moreover have "[a..<b] = map (\<lambda>j. a + j) [0..<b - a]"
    using ab by (simp add: map_add_upt add.commute)
  ultimately show ?thesis by (simp add: comp_def)
qed

lemma map_upt_shift:
  "s \<le> n \<Longrightarrow> map f [s..<n] = map (\<lambda>j. f (s + j)) [0..<n - s]"
  by (rule nth_equalityI) auto

lemma pass_none:
  assumes s: "s \<le> length srvs"
    and dead: "\<forall>j < length srvs. \<not> (net w !! j) (srvs ! (circular_order (length srvs) s ! j))"
  defines "w2 \<equiv> w\<lparr>net := sdrop (length srvs) (net w),
                   probed := probed w @ map ((!) srvs) (circular_order (length srvs) s)\<rparr>"
  shows "find_active_server srvs s exhst w =
           (if exhst
            then Some (Inl (LDAPServerPoolExhaustedError
                             ''no active server available in server pool''), w2)
            else find_active_server srvs s exhst w2)"
proof -
  let ?n = "length srvs"
  let ?w1 = "w\<lparr>net := sdrop (?n - s) (net w),
                 probed := probed w @ map (\<lambda>j. srvs ! (s + j)) [0..<?n - s]\<rparr>"
  have d1: "\<forall>j < ?n - s. \<not> (net w !! j) (srvs ! (s + j))"
  proof (intro allI impI)
    fix j assume j: "j < ?n - s"
    then have "\<not> (net w !! j) (srvs ! (circular_order ?n s ! j))"
      using dead by simp
    then show "\<not> (net w !! j) (srvs ! (s + j))"
      using s j by (simp add: circular_order_nth)
  qed
  have s1: "scan srvs ?n s w = (Inr None, ?w1)"
    using s d1 by (intro scan_none) simp_all
  have d2: "\<forall>j < s. \<not> (net ?w1 !! j) (srvs ! (0 + j))"
  proof (intro allI impI)
    fix j assume j: "j < s"
    have a: "\<not> (net w !! (?n - s + j)) (srvs ! (circular_order ?n s ! (?n - s + j)))"
      using dead s j by simp
    have b: "circular_order ?n s ! (?n - s + j) = j"
      using s j by (rule circular_order_wrap)
    have c: "net ?w1 !! j = net w !! (?n - s + j)"
      by (simp add: sdrop_snth)
    show "\<not> (net ?w1 !! j) (srvs ! (0 + j))"
      using a unfolding b c by simp
  qed
  have s2: "scan srvs s 0 ?w1 =
      (Inr None, ?w1\<lparr>net := sdrop s (net ?w1),
                      probed := probed ?w1 @ map (\<lambda>j. srvs ! (0 + j)) [0..<s]\<rparr>)"
    using s d2 by (intro scan_none) simp_all
  have tr: "map ((!) srvs) (circular_order ?n s) =
            map (\<lambda>j. srvs ! (s + j)) [0..<?n - s] @ map (\<lambda>j. srvs ! (0 + j)) [0..<s]"
    using s by (simp add: circular_order_def map_upt_shift[of s])
  show ?thesis
    using s unfolding w2_def tr
    by (subst find_active_server.simps) (simp add: s1 s2)
qed

lemma pass_found:
  assumes s: "s \<le> length srvs" and m: "m < length srvs"
    and dead: "\<forall>j < m. \<not> (net w !! j) (srvs ! (circular_order (length srvs) s ! j))"
    and live: "(net w !! m) (srvs ! (circular_order (length srvs) s ! m))"
  shows "find_active_server srvs s exhst w =
           Some (Inr (circular_order (length srvs) s ! m),
                 w\<lparr>net := sdrop (Suc m) (net w),
                   probed := probed w @
                     map (\<lambda>j. srvs ! (circular_order (length srvs) s ! j)) [0..<Suc m]\<rparr>)"
proof (cases "m < length srvs - s")
  case True
  let ?n = "length srvs"
  have d1: "\<forall>j < m. \<not> (net w !! j) (srvs ! (s + j))"
  proof (intro allI impI)
    fix j assume j: "j < m"
    then have "\<not> (net w !! j) (srvs ! (circular_order ?n s ! j))"
      using dead by simp
    then show "\<not> (net w !! j) (srvs ! (s + j))"
      using s j m True by (simp add: circular_order_nth)
  qed
  have l1: "(net w !! m) (srvs ! (s + m))"
    using live s m True by (simp add: circular_order_nth)
  have s1: "scan srvs ?n s w =
     (Inr (Some (s + m)), w\<lparr>net := sdrop (Suc m) (net w),
                  probed := probed w @ map (\<lambda>j. srvs ! (s + j)) [0..<Suc m]\<rparr>)"
    using s True d1 l1 by (intro scan_found) simp_all
  have tr: "map (\<lambda>j. srvs ! (circular_order ?n s ! j)) [0..<Suc m] =
            map (\<lambda>j. srvs ! (s + j)) [0..<Suc m]"
    using s m True by (intro map_cong refl) (auto simp: circular_order_nth)
  show ?thesis
    using s m True by (subst find_active_server.simps) (simp add: s1 tr circular_order_nth)
next
  case False
  let ?n = "length srvs"
  let ?k = "m - (?n - s)"
  let ?w1 = "w\<lparr>net := sdrop (?n - s) (net w),
                 probed := probed w @ map (\<lambda>j. srvs ! (s + j)) [0..<?n - s]\<rparr>"
  have d1: "\<forall>j < ?n - s. \<not> (net w !! j) (srvs ! (s + j))"
  proof (intro allI impI)
    fix j assume j: "j < ?n - s"
    then have "\<not> (net w !! j) (srvs ! (circular_order ?n s ! j))"
      using dead False by simp
    then show "\<not> (net w !! j) (srvs ! (s + j))"
      using s j m by (simp add: circular_order_nth)
  qed
  have s1: "scan srvs ?n s w = (Inr None, ?w1)"
    using s d1 by (intro scan_none) simp_all
  have k: "0 + ?k < s" using s m False by simp
  have d2: "\<forall>j < ?k. \<not> (net ?w1 !! j) (srvs ! (0 + j))"
  proof (intro allI impI)
    fix j assume j: "j < ?k"
    have js: "j < s" using j s m by simp
    have a: "\<not> (net w !! (?n - s + j)) (srvs ! (circular_order ?n s ! (?n - s + j)))"
      using dead s m False j by simp
    have b: "circular_order ?n s ! (?n - s + j) = j"
      using s js by (rule circular_order_wrap)
    have c: "net ?w1 !! j = net w !! (?n - s + j)"
      by (simp add: sdrop_snth)
    show "\<not> (net ?w1 !! j) (srvs ! (0 + j))"
      using a unfolding b c by simp
  qed
  have l2: "(net ?w1 !! ?k) (srvs ! (0 + ?k))"
    using live s m False by (simp add: circular_order_nth sdrop_snth)
  have s2: "scan srvs s 0 ?w1 =
      (Inr (Some (0 + ?k)), ?w1\<lparr>net := sdrop (Suc ?k) (net ?w1),
                      probed := probed ?w1 @ map (\<lambda>j. srvs ! (0 + j)) [0..<Suc ?k]\<rparr>)"
    using s k d2 l2 by (intro scan_found) simp_all
  have split: "map (\<lambda>j. srvs ! (circular_order ?n s ! j)) [0..<Suc m] =
      map (\<lambda>j. srvs ! (circular_order ?n s ! j)) [0..<?n - s] @
      map (\<lambda>j. srvs ! (circular_order ?n s ! (?n - s + j))) [0..<Suc m - (?n - s)]"
    using False by (intro map_upt_split) simp
  have t1: "map (\<lambda>j. srvs ! (circular_order ?n s ! j)) [0..<?n - s] =
            map (\<lambda>j. srvs ! (s + j)) [0..<?n - s]"
    using s by (intro map_cong refl) (simp add: circular_order_nth)
  have t2: "map (\<lambda>j. srvs ! (circular_order ?n s ! (?n - s + j))) [0..<Suc m - (?n - s)] =
            map (\<lambda>j. srvs ! (0 + j)) [0..<Suc ?k]"
    using s m False by (intro map_cong) (auto simp: circular_order_nth Suc_diff_le)
  have sd: "sdrop (Suc ?k) (sdrop (?n - s) (net w)) = sdrop (Suc m) (net w)"
    using False by (simp add: sdrop_add[symmetric] del: sdrop.simps)
  have res: "circular_order ?n s ! m = 0 + ?k"
    using s m False by (simp add: circular_order_nth)
  have ar: "?n - s + ?k = m"
    using False by simp
  show ?thesis
    unfolding split t1 t2 res
    by (subst find_active_server.simps) (simp add: s1 s2 ar del: sdrop.simps upt_Suc)
qed

lemma map_circular_order:
  "s \<le> length srvs \<Longrightarrow>
   map (\<lambda>j. srvs ! (circular_order (length srvs) s ! (j mod length srvs))) [0..<length srvs] =
   map ((!) srvs) (circular_order (length srvs) s)"
  by (rule nth_equalityI) (simp_all add: circular_order_length)

lemma find_active_server_passes:
  assumes "s \<le> length srvs"
    and "exhst \<longrightarrow> m < length srvs"
    and "\<forall>j<m. \<not> (net w !! j) (srvs ! (circular_order (length srvs) s ! (j mod length srvs)))"
    and "(net w !! m) (srvs ! (circular_order (length srvs) s ! (m mod length srvs)))"
    and "srvs \<noteq> []"
  shows "find_active_server srvs s exhst w =
     Some (Inr (circular_order (length srvs) s ! (m mod length srvs)),
           w\<lparr>net := sdrop (Suc m) (net w),
             probed := probed w @
               map (\<lambda>j. srvs ! (circular_order (length srvs) s ! (j mod length srvs)))
                 [0..<Suc m]\<rparr>)"
  using assms
proof (induction m arbitrary: w rule: less_induct)
  case (less m)
  let ?n = "length srvs"
  let ?f = "\<lambda>j. srvs ! (circular_order ?n s ! (j mod ?n))"
  show ?case
  proof (cases "m < ?n")
    case True
    have dead: "\<forall>j<m. \<not> (net w !! j) (srvs ! (circular_order ?n s ! j))"
      using less.prems(3) True by auto
    have live: "(net w !! m) (srvs ! (circular_order ?n s ! m))"
      using less.prems(4) True by simp
    have tr: "map ?f [0..<Suc m] = map (\<lambda>j. srvs ! (circular_order ?n s ! j)) [0..<Suc m]"
      using True by (intro map_cong refl) auto
    show ?thesis
      unfolding tr using True pass_found[OF less.prems(1) True dead live, of exhst]
      by simp
  next
    case False
    then have ne: "\<not> exhst" and ge: "?n \<le> m"
      using less.prems(2) by auto
    let ?w2 = "w\<lparr>net := sdrop ?n (net w),
                   probed := probed w @ map ((!) srvs) (circular_order ?n s)\<rparr>"
    have dead1: "\<forall>j < ?n. \<not> (net w !! j) (srvs ! (circular_order ?n s ! j))"
    proof (intro allI impI)
      fix j assume "j < ?n"
      then have "j < m" "j mod ?n = j" using ge by simp_all
      then show "\<not> (net w !! j) (srvs ! (circular_order ?n s ! j))"
        using less.prems(3) by metis
    qed
    have step: "find_active_server srvs s exhst w = find_active_server srvs s exhst ?w2"
      using pass_none[OF less.prems(1) dead1, of exhst] ne by simp
    have pos: "0 < ?n" using less.prems(5) by simp
    have lt: "m - ?n < m" using ge pos by linarith
    have dead2: "\<forall>j<m - ?n. \<not> (net ?w2 !! j) (?f j)"
    proof (intro allI impI)
      fix j assume j: "j < m - ?n"
      then have "?n + j < m" by simp
      then have "\<not> (net w !! (?n + j)) (?f (?n + j))"
        using less.prems(3) by blast
      then show "\<not> (net ?w2 !! j) (?f j)"
        by (simp add: sdrop_snth)
    qed
    have live2: "(net ?w2 !! (m - ?n)) (?f (m - ?n))"
    proof -
      have "(net w !! (?n + (m - ?n))) (?f (?n + (m - ?n)))"
        using less.prems(4) ge by simp
      moreover have "net ?w2 !! (m - ?n) = net w !! (?n + (m - ?n))"
        by (simp add: sdrop_snth)
      ultimately show ?thesis
        by (simp only: mod_add_self1)
    qed
    have ex2: "exhst \<longrightarrow> m - ?n < ?n" using ne by simp
    have ih: "find_active_server srvs s exhst ?w2 =
       Some (Inr (circular_order ?n s ! ((m - ?n) mod ?n)),
           ?w2\<lparr>net := sdrop (Suc (m - ?n)) (net ?w2),
             probed := probed ?w2 @ map ?f [0..<Suc (m - ?n)]\<rparr>)"
      by (rule less.IH[OF lt less.prems(1) ex2 dead2 live2 less.prems(5)])
    have md: "(m - ?n) mod ?n = m mod ?n"
      using ge by (simp add: le_mod_geq)
    have tr: "map ?f [0..<Suc m] = map ((!) srvs) (circular_order ?n s) @ map ?f [0..<Suc (m - ?n)]"
    proof -
      have "map ?f [0..<Suc m] = map ?f [0..<?n] @ map (\<lambda>j. ?f (?n + j)) [0..<Suc m - ?n]"
        using ge by (intro map_upt_split) simp
      moreover have "Suc m - ?n = Suc (m - ?n)" using ge by simp
      ultimately show ?thesis
        using map_circular_order[OF less.prems(1)] by simp
    qed
    have sd: "sdrop (Suc (m - ?n)) (sdrop ?n (net w)) = sdrop (Suc m) (net w)"
      using ge by (simp add: sdrop_add[symmetric] del: sdrop.simps)
    show ?thesis
      unfolding step ih md tr using sd by (simp del: sdrop.simps upt_Suc)
  qed
qed

lemma find_active_server_never_aux:
  assumes "find_active_server srvs s exhst w = Some y"
  shows "\<not> exhst \<longrightarrow> s \<le> length srvs \<longrightarrow> (\<forall>i x. \<not> (net w !! i) x) \<longrightarrow> False"
proof (rule find_active_server.raw_induct
    [where P = "\<lambda>srvs s exhst w y.
        \<not> exhst \<longrightarrow> s \<le> length srvs \<longrightarrow> (\<forall>i x. \<not> (net w !! i) x) \<longrightarrow> False",
     OF _ assms], goal_cases)
  case (1 f srvs s exhst w y)
  show ?case
  proof (intro impI)
    assume ne: "\<not> exhst" and s: "s \<le> length srvs" and dead: "\<forall>i x. \<not> (net w !! i) x"
    let ?w1 = "w\<lparr>net := sdrop (length srvs - s) (net w),
                   probed := probed w @ map (\<lambda>j. srvs ! (s + j)) [0..<length srvs - s]\<rparr>"
    let ?w2 = "?w1\<lparr>net := sdrop s (net ?w1),
                      probed := probed ?w1 @ map (\<lambda>j. srvs ! (0 + j)) [0..<s]\<rparr>"
    have s1: "scan srvs (length srvs) s w = (Inr None, ?w1)"
      using s dead by (intro scan_none) simp_all
    have s2: "scan srvs s 0 ?w1 = (Inr None, ?w2)"
      using s dead by (intro scan_none) (simp_all add: sdrop_snth)
    have "f srvs s exhst ?w2 = Some y"
      using "1"(2) ne by (simp add: s1 s2)
    moreover have "\<forall>i x. \<not> (net ?w2 !! i) x"
      using dead by (simp add: sdrop_snth)
    ultimately show False
      using "1"(1) ne s by blast
  qed
qed

lemma find_active_server_never:
  "s \<le> length srvs \<Longrightarrow> \<forall>i x. \<not> (net w !! i) x \<Longrightarrow>
   find_active_server srvs s False w = None"
  using find_active_server_never_aux[of srvs s False w]
  by (cases "find_active_server srvs s False w") auto

lemma list_index_mem: "x \<in> set xs \<Longrightarrow> \<exists>i. list_index xs x = Inr i"
  by (induction xs) auto

lemma list_index_first:
  "list_index xs x = Inr i \<Longrightarrow> i < length xs \<and> xs ! i = x \<and> (\<forall>j<i. xs ! j \<noteq> x)"
proof (induction xs arbitrary: i)
  case Nil
  then show ?case by simp
next
  case (Cons y ys)
  show ?case
  proof (cases "y = x")
    case True
    with Cons.prems show ?thesis by simp
  next
    case False
    with Cons.prems obtain i' where i': "list_index ys x = Inr i'" "i = Suc i'"
      by (auto split: sum.splits)
    from Cons.IH[OF i'(1)] have "i' < length ys" "ys ! i' = x" "\<forall>j<i'. ys ! j \<noteq> x"
      by simp_all
    then show ?thesis
      using False i'(2) by (auto simp: nth_Cons split: nat.splits)
  qed
qed

lemma mset_pop:
  "i < length xs \<Longrightarrow> mset xs = add_mset (xs ! i) (mset (take i xs @ drop (Suc i) xs))"
proof -
  assume "i < length xs"
  then have "xs = take i xs @ xs ! i # drop (Suc i) xs"
    by (rule id_take_nth_drop)
  then have "mset xs = mset (take i xs @ xs ! i # drop (Suc i) xs)"
    by simp
  then show ?thesis by simp
qed

lemma random_pass_step:
  fixes temp srvs :: "'srv list" and w :: "'srv world"
  assumes "temp \<noteq> []"
  defines "i \<equiv> shd (rng w) mod length temp"
  defines "w2 \<equiv> w\<lparr>rng := stl (rng w), net := stl (net w), probed := probed w @ [temp ! i]\<rparr>"
  shows "random_pass srvs temp w =
     (if shd (net w) (temp ! i)
      then (case list_index srvs (temp ! i) of
              Inl e \<Rightarrow> (Inl e, w2) | Inr i' \<Rightarrow> (Inr (Some i'), w2))
      else random_pass srvs (take i temp @ drop (Suc i) temp) w2)"
proof -
  have n: "0 < length temp" using assms(1) by simp
  have r: "randint 0 (int (length temp) - 1) w = Inr (int i, w\<lparr>rng := stl (rng w)\<rparr>)"
    using n by (simp add: randint_def i_def nat_diff_distrib')
  have p: "list_pop temp (int i) = Inr (temp ! i, take i temp @ drop (Suc i) temp)"
    using n by (simp add: list_pop_def i_def)
  show ?thesis
    using assms(1)
    by (subst random_pass.simps) (simp add: r p check_availability_def w2_def split: sum.splits)
qed

lemma random_pass_result:
  assumes "set temp \<subseteq> set srvs"
  shows "\<exists>ps r. random_pass srvs temp w =
            (Inr r, w\<lparr>rng := sdrop (length ps) (rng w), net := sdrop (length ps) (net w),
                      probed := probed w @ ps\<rparr>)
          \<and> pass_outcome srvs temp w ps r"
  using assms
proof (induction "length temp" arbitrary: temp w)
  case 0
  then have "random_pass srvs temp w = (Inr None, w)"
    by (subst random_pass.simps) simp
  then show ?case
    using 0 by (intro exI[of _ "[]"] exI[of _ None]) (simp add: pass_outcome_def)
next
  case (Suc n)
  then have ne: "temp \<noteq> []" by auto
  define i where "i = shd (rng w) mod length temp"
  define x where "x = temp ! i"
  define rest where "rest = take i temp @ drop (Suc i) temp"
  define w2 where "w2 = w\<lparr>rng := stl (rng w), net := stl (net w), probed := probed w @ [x]\<rparr>"
  have i: "i < length temp" using ne by (simp add: i_def)
  have ms: "mset temp = add_mset x (mset rest)"
    unfolding x_def rest_def using i by (rule mset_pop)
  have xin: "x \<in> set srvs" using Suc.prems i by (auto simp: x_def)
  have step: "random_pass srvs temp w =
     (if shd (net w) x
      then (case list_index srvs x of
              Inl e \<Rightarrow> (Inl e, w2) | Inr i' \<Rightarrow> (Inr (Some i'), w2))
      else random_pass srvs rest w2)"
    unfolding i_def x_def rest_def w2_def by (rule random_pass_step[OF ne])
  show ?case
  proof (cases "shd (net w) x")
    case True
    from list_index_mem[OF xin] obtain i' where i': "list_index srvs x = Inr i'" ..
    have "random_pass srvs temp w = (Inr (Some i'), w2)"
      using step True i' by simp
    moreover have "w2 = w\<lparr>rng := sdrop (length [x]) (rng w), net := sdrop (length [x]) (net w),
                      probed := probed w @ [x]\<rparr>"
      by (simp add: w2_def)
    moreover have "pass_outcome srvs temp w [x] (Some i')"
      using True i' ms by (simp add: pass_outcome_def)
    ultimately show ?thesis by metis
  next
    case False
    have len: "n = length rest" using Suc.hyps(2) i by (simp add: rest_def)
    have sub: "set rest \<subseteq> set srvs"
      using Suc.prems by (metis ms set_mset_mset set_subset_Cons subset_trans set_mset_add_mset_insert subset_insertI)
    from Suc.hyps(1)[OF len sub, of w2] obtain ps r where
      rp: "random_pass srvs rest w2 =
            (Inr r, w2\<lparr>rng := sdrop (length ps) (rng w2), net := sdrop (length ps) (net w2),
                      probed := probed w2 @ ps\<rparr>)"
      and po: "pass_outcome srvs rest w2 ps r" by blast
    have "random_pass srvs temp w =
            (Inr r, w\<lparr>rng := sdrop (length (x # ps)) (rng w),
                      net := sdrop (length (x # ps)) (net w),
                      probed := probed w @ (x # ps)\<rparr>)"
      using step False rp by (simp add: w2_def)
    moreover have "pass_outcome srvs temp w (x # ps) r"
    proof (cases r)
      case None
      with po have a: "mset ps = mset rest" and b: "\<forall>j<length ps. \<not> (net w2 !! j) (ps ! j)"
        by (simp_all add: pass_outcome_def)
      have "\<forall>j<length (x # ps). \<not> (net w !! j) ((x # ps) ! j)"
      proof (intro allI impI)
        fix j assume j: "j < length (x # ps)"
        show "\<not> (net w !! j) ((x # ps) ! j)"
        proof (cases j)
          case 0
          then show ?thesis using False by simp
        next
          case (Suc j')
          then show ?thesis using b j by (simp add: w2_def)
        qed
      qed
      then show ?thesis
        using None a ms by (simp add: pass_outcome_def)
    next
      case (Some i')
      with po have a: "ps \<noteq> []" "mset ps \<subseteq># mset rest" "list_index srvs (last ps) = Inr i'"
        "(net w2 !! (length ps - 1)) (last ps)" and b: "\<forall>j<length ps - 1. \<not> (net w2 !! j) (ps ! j)"
        by (simp_all add: pass_outcome_def)
      have c: "\<forall>j<length (x # ps) - 1. \<not> (net w !! j) ((x # ps) ! j)"
      proof (intro allI impI)
        fix j assume j: "j < length (x # ps) - 1"
        show "\<not> (net w !! j) ((x # ps) ! j)"
        proof (cases j)
          case 0
          then show ?thesis using False by simp
        next
          case (Suc j')
          then show ?thesis using b j by (simp add: w2_def)
        qed
      qed
      have d: "(net w !! (length (x # ps) - 1)) (last (x # ps))"
      proof -
        obtain k where k: "length ps = Suc k" using a(1) by (cases ps) auto
        then show ?thesis using a(1,4) by (simp add: w2_def)
      qed
      have e: "mset (x # ps) \<subseteq># mset temp"
        using a(2) ms by simp
      show ?thesis
        unfolding Some pass_outcome_def option.case
        using a(1,3) c d e by simp
    qed
    ultimately show ?thesis by blast
  qed
qed

lemma find_active_random_server_exhaust:
  "\<exists>r w' ps. find_active_random_server srvs True w = Some (r, w')
      \<and> probed w' = probed w @ ps \<and> scan_outcome srvs w ps r"
proof -
  from random_pass_result[of srvs srvs w] obtain ps r where
    rp: "random_pass srvs srvs w =
            (Inr r, w\<lparr>rng := sdrop (length ps) (rng w), net := sdrop (length ps) (net w),
                      probed := probed w @ ps\<rparr>)"
    and po: "pass_outcome srvs srvs w ps r" by blast
  show ?thesis
  proof (cases r)
    case None
    then have "find_active_random_server srvs True w =
      Some (Inl (LDAPServerPoolExhaustedError ''no random active server in server pool''),
            w\<lparr>rng := sdrop (length ps) (rng w), net := sdrop (length ps) (net w),
                      probed := probed w @ ps\<rparr>)"
      using rp by (subst find_active_random_server.simps) simp
    moreover have "scan_outcome srvs w ps
        (Inl (LDAPServerPoolExhaustedError ''no random active server in server pool''))"
      using po None by (simp add: pass_outcome_def scan_outcome_def)
    ultimately show ?thesis by fastforce
  next
    case (Some i)
    then have "find_active_random_server srvs True w =
      Some (Inr i, w\<lparr>rng := sdrop (length ps) (rng w), net := sdrop (length ps) (net w),
                      probed := probed w @ ps\<rparr>)"
      using rp by (subst find_active_random_server.simps) simp
    moreover have "scan_outcome srvs w ps (Inr i)"
      using po Some list_index_first[of srvs "last ps" i]
      by (simp add: pass_outcome_def scan_outcome_def)
    ultimately show ?thesis by fastforce
  qed
qed

lemma find_active_random_server_never_aux:
  assumes "find_active_random_server srvs exhst w = Some y"
  shows "\<not> exhst \<longrightarrow> (\<forall>i x. \<not> (net w !! i) x) \<longrightarrow> False"
proof (rule find_active_random_server.raw_induct
    [where P = "\<lambda>srvs exhst w y. \<not> exhst \<longrightarrow> (\<forall>i x. \<not> (net w !! i) x) \<longrightarrow> False",
     OF _ assms], goal_cases)
  case (1 f srvs exhst w y)
  show ?case
  proof (intro impI)
    assume ne: "\<not> exhst" and dead: "\<forall>i x. \<not> (net w !! i) x"
    from random_pass_result[of srvs srvs w] obtain ps r where
      rp: "random_pass srvs srvs w =
            (Inr r, w\<lparr>rng := sdrop (length ps) (rng w), net := sdrop (length ps) (net w),
                      probed := probed w @ ps\<rparr>)"
      and po: "pass_outcome srvs srvs w ps r" by blast
    have r: "r = None"
      using po dead by (cases r) (simp_all add: pass_outcome_def)
    let ?w1 = "w\<lparr>rng := sdrop (length ps) (rng w), net := sdrop (length ps) (net w),
                      probed := probed w @ ps\<rparr>"
    have "f srvs exhst ?w1 = Some y"
      using "1"(2) ne rp r by simp
    moreover have "\<forall>i x. \<not> (net ?w1 !! i) x"
      using dead by (simp add: sdrop_snth)
    ultimately show False
      using "1"(1) ne by blast
  qed
qed

lemma find_active_random_server_never:
  "\<forall>i x. \<not> (net w !! i) x \<Longrightarrow> find_active_random_server srvs False w = None"
  using find_active_random_server_never_aux[of srvs False w]
  by (cases "find_active_random_server srvs False w") auto

lemma find_active_random_server_returns_aux:
  assumes "find_active_random_server srvs exhst w = Some y"
  shows "\<forall>r w'. y = (Inr r, w') \<longrightarrow>
           (\<exists>ps. probed w' = probed w @ ps \<and> ps \<noteq> [] \<and> list_index srvs (last ps) = Inr r
                 \<and> (net w !! (length ps - 1)) (last ps))"
proof (rule find_active_random_server.raw_induct
    [where P = "\<lambda>srvs exhst w y. \<forall>r w'. y = (Inr r, w') \<longrightarrow>
           (\<exists>ps. probed w' = probed w @ ps \<and> ps \<noteq> [] \<and> list_index srvs (last ps) = Inr r
                 \<and> (net w !! (length ps - 1)) (last ps))",
     OF _ assms], goal_cases)
  case (1 f srvs exhst w y)
  from random_pass_result[of srvs srvs w] obtain ps r where
    rp: "random_pass srvs srvs w =
          (Inr r, w\<lparr>rng := sdrop (length ps) (rng w), net := sdrop (length ps) (net w),
                    probed := probed w @ ps\<rparr>)"
    and po: "pass_outcome srvs srvs w ps r" by blast
  let ?w1 = "w\<lparr>rng := sdrop (length ps) (rng w), net := sdrop (length ps) (net w),
                    probed := probed w @ ps\<rparr>"
  show ?case
  proof (intro allI impI)
    fix r' w' assume y: "y = (Inr r', w')"
    show "\<exists>ps. probed w' = probed w @ ps \<and> ps \<noteq> [] \<and> list_index srvs (last ps) = Inr r'
                 \<and> (net w !! (length ps - 1)) (last ps)"
    proof (cases r)
      case (Some i)
      then have "y = (Inr i, ?w1)"
        using "1"(2) rp by simp
      then have "r' = i" "w' = ?w1" using y by simp_all
      then show ?thesis
        using po Some by (intro exI[of _ ps]) (simp add: pass_outcome_def)
    next
      case None
      show ?thesis
      proof (cases exhst)
        case True
        then show ?thesis using "1"(2) rp None y by simp
      next
        case False
        then have "f srvs exhst ?w1 = Some y"
          using "1"(2) rp None by simp
        from "1"(1)[OF this] y obtain ps' where
          ps': "probed w' = probed ?w1 @ ps'" "ps' \<noteq> []" "list_index srvs (last ps') = Inr r'"
            "(net ?w1 !! (length ps' - 1)) (last ps')" by blast
        have "probed w' = probed w @ (ps @ ps')" using ps'(1) by simp
        moreover have "ps @ ps' \<noteq> []" using ps'(2) by simp
        moreover have "list_index srvs (last (ps @ ps')) = Inr r'" using ps'(2,3) by simp
        moreover have "(net w !! (length (ps @ ps') - 1)) (last (ps @ ps'))"
        proof -
          obtain k where k: "length ps' = Suc k" using ps'(2) by (cases ps') auto
          then show ?thesis using ps'(2,4) by (simp add: sdrop_snth)
        qed
        ultimately show ?thesis by blast
      qed
    qed
  qed
qed

lemma map_nth_circular_order:
  "s \<le> length srvs \<Longrightarrow>
   map ((!) srvs) (circular_order (length srvs) s) = drop s srvs @ take s srvs"
proof -
  assume s: "s \<le> length srvs"
  have "map ((!) srvs) [s..<length srvs] = drop s srvs"
    by (rule nth_equalityI) auto
  moreover have "map ((!) srvs) [0..<s] = take s srvs"
    using s by (intro nth_equalityI) auto
  ultimately show ?thesis by (simp add: circular_order_def)
qed

lemma mset_map_circular:
  "s \<le> length srvs \<Longrightarrow> mset (map ((!) srvs) (circular_order (length srvs) s)) = mset srvs"
proof -
  assume s: "s \<le> length srvs"
  have "mset (drop s srvs @ take s srvs) = mset srvs"
    by (metis append_take_drop_id mset_append union_commute)
  then show ?thesis
    using s by (simp only: map_nth_circular_order)
qed

lemma mset_take_sub: "mset (take k xs) \<subseteq># mset xs"
proof -
  have "mset xs = mset (take k xs) + mset (drop k xs)"
    by (metis append_take_drop_id mset_append)
  then show ?thesis by simp
qed

lemma circular_prefix:
  assumes "s \<le> length srvs" "m < length srvs"
  shows "map (\<lambda>j. srvs ! (circular_order (length srvs) s ! j)) [0..<Suc m] =
         take (Suc m) (map ((!) srvs) (circular_order (length srvs) s))"
  using assms by (intro nth_equalityI) (auto simp: circular_order_length simp del: upt_Suc)

lemma find_active_server_exhaust:
  assumes s: "s \<le> length srvs"
  shows "\<exists>r w' ps. find_active_server srvs s True w = Some (r, w')
      \<and> probed w' = probed w @ ps \<and> scan_outcome srvs w ps r"
proof -
  let ?n = "length srvs"
  let ?ord = "circular_order ?n s"
  let ?live = "\<lambda>j. j < ?n \<and> (net w !! j) (srvs ! (?ord ! j))"
  show ?thesis
  proof (cases "\<exists>j. ?live j")
    case True
    define m where "m = (LEAST j. ?live j)"
    have lm: "?live m" unfolding m_def using True by (rule LeastI_ex)
    have dead: "\<forall>j<m. \<not> (net w !! j) (srvs ! (?ord ! j))"
    proof (intro allI impI)
      fix j assume j: "j < m"
      then have "\<not> ?live j" unfolding m_def by (rule not_less_Least)
      then show "\<not> (net w !! j) (srvs ! (?ord ! j))" using j lm by simp
    qed
    let ?ps = "map (\<lambda>j. srvs ! (?ord ! j)) [0..<Suc m]"
    have res: "find_active_server srvs s True w =
           Some (Inr (?ord ! m), w\<lparr>net := sdrop (Suc m) (net w), probed := probed w @ ?ps\<rparr>)"
      using lm by (intro pass_found[OF s _ dead]) simp_all
    have idx: "?ord ! m < ?n"
    proof -
      have "?ord ! m \<in> set ?ord" using lm s by (simp add: circular_order_length)
      then show ?thesis using circular_order_perm[OF s] by simp
    qed
    have sub: "mset ?ps \<subseteq># mset srvs"
    proof -
      have m: "m < ?n" using lm by simp
      have "mset ?ps = mset (take (Suc m) (map ((!) srvs) ?ord))"
        by (simp only: circular_prefix[OF s m])
      also have "\<dots> \<subseteq># mset (map ((!) srvs) ?ord)"
        by (rule mset_take_sub)
      also have "\<dots> = mset srvs"
        by (rule mset_map_circular[OF s])
      finally show ?thesis .
    qed
    have "scan_outcome srvs w ?ps (Inr (?ord ! m))"
      unfolding scan_outcome_def sum.case
      using idx sub lm dead by (auto simp: nth_append)
    then show ?thesis using res by fastforce
  next
    case False
    then have dead: "\<forall>j < ?n. \<not> (net w !! j) (srvs ! (?ord ! j))" by blast
    let ?ps = "map ((!) srvs) ?ord"
    have res: "find_active_server srvs s True w =
        Some (Inl (LDAPServerPoolExhaustedError ''no active server available in server pool''),
              w\<lparr>net := sdrop ?n (net w), probed := probed w @ ?ps\<rparr>)"
      using pass_none[OF s dead, of True] by simp
    have "scan_outcome srvs w ?ps
        (Inl (LDAPServerPoolExhaustedError ''no active server available in server pool''))"
    proof -
      have ms: "mset ?ps = mset srvs" by (rule mset_map_circular[OF s])
      have d: "\<forall>j<length ?ps. \<not> (net w !! j) (?ps ! j)"
        using dead s by (simp add: circular_order_length)
      show ?thesis
        unfolding scan_outcome_def sum.case using ms d by blast
    qed
    then show ?thesis using res by fastforce
  qed
qed

lemma assign_found_outcome:
  assumes "found = Some (r, w')" and "probed w' = probed w @ ps"
    and "scan_outcome (servers st) w ps r"
  shows "\<exists>r st' w' ps. assign_found st found = Some (r, st', w') \<and> probed w' = probed w @ ps \<and>
       ((\<exists>i<length (servers st). r = Inr (servers st ! i) \<and> st' = st\<lparr>last_used_server := i\<rparr>
            \<and> ps \<noteq> [] \<and> last ps = servers st ! i
            \<and> (net w !! (length ps - 1)) (last ps) \<and> mset ps \<subseteq># mset (servers st)
            \<and> (\<forall>j<length ps - 1. \<not> (net w !! j) (ps ! j)))
        \<or> ((\<exists>msg. r = Inl (LDAPServerPoolExhaustedError msg)) \<and> st' = st
            \<and> mset ps = mset (servers st) \<and> (\<forall>j<length ps. \<not> (net w !! j) (ps ! j))))"
proof (cases r)
  case (Inl e)
  then have "assign_found st found = Some (Inl e, st, w')"
    using assms(1) by (simp add: assign_found_def)
  then show ?thesis
    using assms(2,3) Inl unfolding scan_outcome_def by auto
next
  case (Inr i)
  then have i: "i < length (servers st)" using assms(3) by (simp add: scan_outcome_def)
  have "assign_found st found = Some (Inr (servers st ! i), st\<lparr>last_used_server := i\<rparr>, w')"
    using assms(1) Inr i by (simp add: assign_found_def return_server_def getitem_def)
  then show ?thesis
    using assms(2,3) Inr i unfolding scan_outcome_def by auto
qed

lemma refresh_result:
  "refresh srvs st w =
     (if srvs = [] then (Inl ValueError, st\<lparr>servers := []\<rparr>, w)
      else (Inr (), st\<lparr>servers := srvs, last_used_server := shd (rng w) mod length srvs\<rparr>,
            w\<lparr>rng := stl (rng w)\<rparr>))"
proof (cases "srvs = []")
  case True
  then show ?thesis by (simp add: refresh_empty)
next
  case False
  then have "0 < length srvs" by simp
  then show ?thesis
    using False by (simp add: refresh_def randint_def foldl_snoc_copy Let_def nat_diff_distrib')
qed

lemma refresh_all_error:
  "refresh_all srvs states w = (Inl e, states1, w1) \<Longrightarrow> e = ValueError"
proof (induction states arbitrary: states1 w w1)
  case Nil
  then show ?case by simp
next
  case (Cons cs states)
  obtain c st where cs: "cs = (c, st)" by (cases cs)
  show ?case
  proof (cases "srvs = []")
    case True
    with Cons.prems cs show ?thesis by (simp add: refresh_result)
  next
    case False
    with Cons.prems cs show ?thesis
      by (auto simp: refresh_result split: prod.splits dest: Cons.IH)
  qed
qed

lemma refresh_all_ok:
  "refresh_all srvs states w = (Inr (), states1, w1) \<Longrightarrow>
   map fst states1 = map fst states
   \<and> (\<forall>(c, st) \<in> set states1. servers st = srvs \<and> last_used_server st < length srvs)
   \<and> rng w1 = sdrop (length states) (rng w)"
proof (induction states arbitrary: states1 w w1)
  case Nil
  then show ?case by auto
next
  case (Cons cs states)
  obtain c st where cs: "cs = (c, st)" by (cases cs)
  show ?case
  proof (cases "srvs = []")
    case True
    with Cons.prems cs show ?thesis by (simp add: refresh_result)
  next
    case False
    let ?st1 = "st\<lparr>servers := srvs, last_used_server := shd (rng w) mod length srvs\<rparr>"
    let ?w1 = "w\<lparr>rng := stl (rng w)\<rparr>"
    from Cons.prems cs False obtain rest where
      rest: "refresh_all srvs states ?w1 = (Inr (), rest, w1)" and s1: "states1 = (c, ?st1) # rest"
      by (auto simp: refresh_result split: prod.splits)
    from Cons.IH[OF rest] have "map fst rest = map fst states"
      "\<forall>(c, st) \<in> set rest. servers st = srvs \<and> last_used_server st < length srvs"
      "rng w1 = sdrop (length states) (rng ?w1)" by auto
    then show ?thesis
      using s1 cs False by auto
  qed
qed

lemma notify_result:
  "notify p w = (r, p', w') \<Longrightarrow>
   \<exists>states1. refresh_all (pool_servers p) (pool_states p) w = (r, states1, w')
            \<and> p' = p\<lparr>pool_states := states1\<rparr>"
  by (auto simp: notify_def split: prod.splits)

lemma add_cases:
  "ServerPool_add mk_server p arg w =
     (if (case arg of ArgSequence elements \<Rightarrow> ElemOther \<in> set elements
                    | ArgNone \<Rightarrow> True | ArgOther \<Rightarrow> True | _ \<Rightarrow> False)
      then (Inl (LDAPServerPoolError
                  (case arg of ArgSequence elements \<Rightarrow> ''server in ServerPool must be a Server''
                   | _ \<Rightarrow> ''server must be a Server or a list of Server'')),
            p\<lparr>pool_servers := after_add mk_server (pool_servers p) arg\<rparr>, w)
      else notify (p\<lparr>pool_servers := after_add mk_server (pool_servers p) arg\<rparr>) w)"
  by (cases arg) (simp_all add: ServerPool_add_def after_add_def add_elements_prefix)

lemma notify_no_pool_error:
  "notify p w \<noteq> (Inl (LDAPServerPoolError msg), p', w')"
proof
  assume "notify p w = (Inl (LDAPServerPoolError msg), p', w')"
  from notify_result[OF this] show False
    by (auto dest: refresh_all_error)
qed

lemma notify_ok:
  assumes "notify p w = (Inr (), p', w')"
  shows "\<exists>states1. p' = p\<lparr>pool_states := states1\<rparr>
         \<and> refresh_all (pool_servers p') (pool_states p) w = (Inr (), states1, w')
         \<and> map fst states1 = map fst (pool_states p)
         \<and> (\<forall>(c, st) \<in> set states1.
               servers st = pool_servers p' \<and> last_used_server st < length (pool_servers p'))"
proof -
  from notify_result[OF assms] obtain states1 where
    r: "refresh_all (pool_servers p) (pool_states p) w = (Inr (), states1, w')"
    and p': "p' = p\<lparr>pool_states := states1\<rparr>" by blast
  from refresh_all_ok[OF r] p' r show ?thesis
    by (intro exI[of _ states1]) simp
qed

lemma add_ok:
  assumes "ServerPool_add mk_server p arg w = (Inr (), p', w')"
  shows "\<exists>states1. p' = p\<lparr>pool_servers := after_add mk_server (pool_servers p) arg,
                         pool_states := states1\<rparr>
         \<and> refresh_all (pool_servers p') (pool_states p) w = (Inr (), states1, w')
         \<and> map fst states1 = map fst (pool_states p)
         \<and> (\<forall>(c, st) \<in> set states1.
               servers st = pool_servers p' \<and> last_used_server st < length (pool_servers p'))"
proof -
  from assms have
    "notify (p\<lparr>pool_servers := after_add mk_server (pool_servers p) arg\<rparr>) w = (Inr (), p', w')"
    by (simp add: add_cases split: if_splits)
  from notify_ok[OF this] show ?thesis by simp
qed

lemma add_err:
  assumes "ServerPool_add mk_server p arg w = (Inl (LDAPServerPoolError msg), p', w')"
  shows "p' = p\<lparr>pool_servers := after_add mk_server (pool_servers p) arg\<rparr> \<and> w' = w
        \<and> ((\<forall>elements. arg \<noteq> ArgSequence elements) \<longrightarrow> p' = p)"
  using assms notify_no_pool_error[of _ w msg p' w']
  by (cases arg) (auto simp: add_cases after_add_def split: if_splits)

lemma remove_ok:
  assumes "ServerPool_remove p server w = (Inr (), p', w')"
  shows "server \<in> set (pool_servers p)
        \<and> (\<exists>states1. p' = p\<lparr>pool_servers := remove1 server (pool_servers p),
                             pool_states := states1\<rparr>
         \<and> refresh_all (pool_servers p') (pool_states p) w = (Inr (), states1, w')
         \<and> map fst states1 = map fst (pool_states p)
         \<and> (\<forall>(c, st) \<in> set states1.
               servers st = pool_servers p' \<and> last_used_server st < length (pool_servers p')))"
proof -
  from assms have m: "server \<in> set (pool_servers p)" and
    "notify (p\<lparr>pool_servers := remove1 server (pool_servers p)\<rparr>) w = (Inr (), p', w')"
    by (simp_all add: ServerPool_remove_def split: if_splits)
  from notify_ok[OF this(2)] m show ?thesis by simp
qed

lemma remove_err:
  assumes "ServerPool_remove p server w = (Inl (LDAPServerPoolError msg), p', w')"
  shows "p' = p \<and> w' = w"
  using assms notify_no_pool_error[of _ w msg p' w']
  by (auto simp: ServerPool_remove_def split: if_splits)

lemma get_server_round_robin:
  assumes "pool_strategy p = ROUND_ROBIN" "\<not> active p" "servers st \<noteq> []"
    "last_used_server st < length (servers st)"
  shows "get_server p st w =
     Some (Inr (servers st ! ((last_used_server st + 1) mod length (servers st))),
           st\<lparr>last_used_server := (last_used_server st + 1) mod length (servers st)\<rparr>, w)"
proof -
  let ?n = "length (servers st)"
  let ?c = "if last_used_server st + 1 < ?n then last_used_server st + 1 else 0"
  have c: "?c = (last_used_server st + 1) mod ?n"
    using assms(4) by (auto simp: mod_if dest: le_antisym)
  have lt: "?c < ?n" using assms(3) by auto
  have "get_server p st w = Some (Inr (servers st ! ?c), st\<lparr>last_used_server := ?c\<rparr>, w)"
    using assms(1-3) lt by (simp add: get_server_def return_server_def getitem_def)
  then show ?thesis unfolding c .
qed

lemma map_of_update_same: "map_of (AList.update k v al) k = Some v"
  by (simp add: update_conv')

lemma round_robin_times:
  assumes "pool_strategy p = ROUND_ROBIN" "\<not> active p" "map_of (pool_states p) c = Some st"
    "servers st \<noteq> []" "last_used_server st < length (servers st)"
  shows "\<exists>p'. get_server_times m p c w =
           Some (map (\<lambda>k. Inr (servers st ! ((last_used_server st + 1 + k) mod length (servers st))))
                   [0..<m], p', w)
         \<and> pool_strategy p' = ROUND_ROBIN \<and> \<not> active p'
         \<and> map_of (pool_states p') c =
             Some (st\<lparr>last_used_server := (last_used_server st + m) mod length (servers st)\<rparr>)"
  using assms
proof (induction m arbitrary: p st)
  case 0
  then show ?case by simp
next
  case (Suc m)
  let ?n = "length (servers st)"
  let ?c1 = "(last_used_server st + 1) mod ?n"
  let ?st1 = "st\<lparr>last_used_server := ?c1\<rparr>"
  let ?p1 = "p\<lparr>pool_states := AList.update c ?st1 (pool_states p)\<rparr>"
  have pos: "0 < ?n" using Suc.prems(4) by simp
  have call: "ServerPool_get_server p c w = Some (Inr (servers st ! ?c1), ?p1, w)"
    using Suc.prems get_server_round_robin[OF Suc.prems(1,2,4,5), of w]
    by (simp add: ServerPool_get_server_def)
  have "\<exists>p'. get_server_times m ?p1 c w =
           Some (map (\<lambda>k. Inr (servers ?st1 ! ((last_used_server ?st1 + 1 + k) mod length (servers ?st1))))
                   [0..<m], p', w)
         \<and> pool_strategy p' = ROUND_ROBIN \<and> \<not> active p'
         \<and> map_of (pool_states p') c =
             Some (?st1\<lparr>last_used_server := (last_used_server ?st1 + m) mod length (servers ?st1)\<rparr>)"
    using Suc.prems pos by (intro Suc.IH) (simp_all add: map_of_update_same)
  then obtain p' where
    rest: "get_server_times m ?p1 c w =
           Some (map (\<lambda>k. Inr (servers st ! ((?c1 + 1 + k) mod ?n))) [0..<m], p', w)"
    and inv: "pool_strategy p' = ROUND_ROBIN" "\<not> active p'"
    and cur: "map_of (pool_states p') c = Some (st\<lparr>last_used_server := (?c1 + m) mod ?n\<rparr>)"
    by auto
  have idx: "(?c1 + 1 + k) mod ?n = (last_used_server st + 1 + Suc k) mod ?n" for k
    by (metis add.assoc add_Suc_right mod_add_left_eq plus_1_eq_Suc)
  have fin: "(?c1 + m) mod ?n = (last_used_server st + Suc m) mod ?n"
    by (metis add.assoc add_Suc_right mod_add_left_eq plus_1_eq_Suc add.commute)
  have A: "get_server_times (Suc m) p c w =
      Some (Inr (servers st ! ?c1) #
            map (\<lambda>k. Inr (servers st ! ((last_used_server st + 1 + Suc k) mod ?n))) [0..<m], p', w)"
    using call rest[unfolded idx] by simp
  have B: "map (\<lambda>k. Inr (servers st ! ((last_used_server st + 1 + k) mod ?n))) [0..<Suc m] =
      Inr (servers st ! ?c1) #
            map (\<lambda>k. Inr (servers st ! ((last_used_server st + 1 + Suc k) mod ?n))) [0..<m]"
    by (simp add: map_upt_Suc del: upt_Suc)
  have t: "get_server_times (Suc m) p c w =
      Some (map (\<lambda>k. Inr (servers st ! ((last_used_server st + 1 + k) mod ?n))) [0..<Suc m], p', w)"
    by (simp only: A B)
  show ?case
    using t inv cur[unfolded fin] by blast
qed

lemma round_robin_order:
  assumes "c < n"
  shows "map (\<lambda>k. f ((c + 1 + k) mod n)) [0..<n] = map f (circular_order n (c + 1))"
proof (rule nth_equalityI)
  show "length (map (\<lambda>k. f ((c + 1 + k) mod n)) [0..<n]) = length (map f (circular_order n (c + 1)))"
    using assms by (simp add: circular_order_length)
next
  fix k assume "k < length (map (\<lambda>k. f ((c + 1 + k) mod n)) [0..<n])"
  then have k: "k < n" by simp
  have "(c + 1 + k) mod n = circular_order n (c + 1) ! k"
  proof (cases "k < n - (c + 1)")
    case True
    then show ?thesis using assms k by (simp add: circular_order_front)
  next
    case False
    then have "c + 1 + k = n + (k - (n - (c + 1)))" using assms by simp
    then have "(c + 1 + k) mod n = (k - (n - (c + 1))) mod n"
      by (metis mod_add_self1)
    moreover have "k - (n - (c + 1)) < n" using k by simp
    moreover have "circular_order n (c + 1) ! k = k - (n - (c + 1))"
      using assms k False by (simp add: circular_order_nth)
    ultimately show ?thesis by simp
  qed
  then show "map (\<lambda>k. f ((c + 1 + k) mod n)) [0..<n] ! k = map f (circular_order n (c + 1)) ! k"
    using k assms by (simp add: circular_order_length)
qed

text \<open>
  Where the cursor stays a valid index: after \<open>refresh\<close> and the constructor of the state
  when they return, and after \<open>get_server\<close> in every branch but the one for RANDOM without
  the active filter, whatever the call returns or raises.
\<close>

lemma scan_result_index:
  "scan srvs bound index w = (Inr (Some i), w') \<Longrightarrow> i < length srvs"
proof (induction "bound - index" arbitrary: index w)
  case 0
  then show ?case by (simp add: scan_stop)
next
  case (Suc n)
  then have lt: "index < bound" by simp
  show ?case
  proof (cases "index < length srvs")
    case False
    then have "scan srvs bound index w = (Inl IndexError, w)"
      using lt by (subst scan.simps) (simp add: getitem_def)
    with Suc.prems show ?thesis by simp
  next
    case True
    show ?thesis
    proof (cases "shd (net w) (srvs ! index)")
      case live: True
      from scan_step_live[OF lt True live] Suc.prems True show ?thesis by simp
    next
      case dead: False
      have "n = bound - Suc index" using Suc.hyps(2) by simp
      from Suc.hyps(1)[OF this] scan_step_dead[OF lt True dead] Suc.prems
      show ?thesis by simp
    qed
  qed
qed

lemma find_active_server_index_aux:
  assumes "find_active_server srvs s exhst w = Some y"
  shows "\<forall>i w'. y = (Inr i, w') \<longrightarrow> i < length srvs"
proof (rule find_active_server.raw_induct
    [where P = "\<lambda>srvs s exhst w y. \<forall>i w'. y = (Inr i, w') \<longrightarrow> i < length srvs",
     OF _ assms], goal_cases)
  case (1 f srvs s exhst w y)
  show ?case
  proof (intro allI impI)
    fix i w' assume y: "y = (Inr i, w')"
    obtain r1 w1 where s1: "scan srvs (length srvs) s w = (r1, w1)"
      by (cases "scan srvs (length srvs) s w")
    obtain r2 w2 where s2: "scan srvs s 0 w1 = (r2, w2)"
      by (cases "scan srvs s 0 w1")
    show "i < length srvs"
    proof (cases r1)
      case (Inl e)
      with "1"(2) s1 y show ?thesis by simp
    next
      case (Inr o1)
      show ?thesis
      proof (cases o1)
        case (Some index)
        with "1"(2) s1 Inr y have "scan srvs (length srvs) s w = (Inr (Some i), w')"
          by simp
        then show ?thesis by (rule scan_result_index)
      next
        case None
        note first = this
        show ?thesis
        proof (cases r2)
          case (Inl e)
          with "1"(2) s1 s2 \<open>r1 = Inr o1\<close> first y show ?thesis by simp
        next
          case (Inr o2)
          show ?thesis
          proof (cases o2)
            case (Some index)
            with "1"(2) s1 s2 \<open>r1 = Inr o1\<close> first Inr y
            have "scan srvs s 0 w1 = (Inr (Some i), w')"
              by simp
            then show ?thesis by (rule scan_result_index)
          next
            case None
            with "1"(2) s1 s2 \<open>r1 = Inr o1\<close> first Inr y
            have "f srvs s exhst w2 = Some y"
              by (simp split: if_splits)
            from "1"(1)[OF this] y show ?thesis by blast
          qed
        qed
      qed
    qed
  qed
qed

lemma find_active_server_index:
  "find_active_server srvs s exhst w = Some (Inr i, w') \<Longrightarrow> i < length srvs"
  using find_active_server_index_aux by blast

lemma find_active_random_server_index:
  "find_active_random_server srvs exhst w = Some (Inr i, w') \<Longrightarrow> i < length srvs"
  using find_active_random_server_returns_aux[of srvs exhst w "(Inr i, w')"]
    list_index_first[of srvs _ i] by blast

lemma refresh_cursor_valid:
  "refresh srvs st w = (Inr u, st', w') \<Longrightarrow>
   servers st' = srvs \<and> last_used_server st' < length (servers st')"
  by (auto simp: refresh_result split: if_splits)

lemma init_cursor_valid:
  "ServerPoolState_init server_pool w = (Inr st, w') \<Longrightarrow>
   servers st = pool_servers server_pool \<and> last_used_server st < length (servers st)"
  by (cases "pool_servers server_pool = []")
     (auto simp: ServerPoolState_init_def refresh_result randint_def nat_diff_distrib'
           split: if_splits)

lemma assign_found_cursor_valid:
  assumes "assign_found st found = Some (r, st', w')"
    and "last_used_server st < length (servers st)"
    and "\<And>i w1. found = Some (Inr i, w1) \<Longrightarrow> i < length (servers st)"
  shows "servers st' = servers st \<and> last_used_server st' < length (servers st')"
  using assms
  by (auto simp: assign_found_def return_server_def split: option.splits sum.splits prod.splits)

lemma get_server_cursor_valid:
  assumes "get_server server_pool st w = Some (r, st', w')"
    and "last_used_server st < length (servers st)"
    and "\<not> (pool_strategy server_pool = RANDOM \<and> \<not> active server_pool)"
  shows "servers st' = servers st \<and> last_used_server st' < length (servers st')"
proof (cases "servers st = []")
  case True
  with assms show ?thesis by (simp add: get_server_def)
next
  case False
  have a: "servers st' = servers st \<and> last_used_server st' < length (servers st')"
    if "assign_found st (find_active_server (servers st) s (exhaust server_pool) w) = Some (r, st', w')"
    for s
    using that assms(2) find_active_server_index[of "servers st" s "exhaust server_pool" w]
    by (intro assign_found_cursor_valid[OF that]) auto
  have b: "servers st' = servers st \<and> last_used_server st' < length (servers st')"
    if "assign_found st (find_active_random_server (servers st) (exhaust server_pool) w)
          = Some (r, st', w')"
    using that assms(2) find_active_random_server_index[of "servers st" "exhaust server_pool" w]
    by (intro assign_found_cursor_valid[OF that]) auto
  have c: "servers st' = servers st \<and> last_used_server st' < length (servers st')"
    if "return_server (st\<lparr>last_used_server := k\<rparr>) w = Some (r, st', w')"
      and "k < length (servers st)" for k
    using that by (auto simp: return_server_def)
  have d: "servers st' = servers st \<and> last_used_server st' < length (servers st')"
    if "Some (e, st, w) = Some (r, st', w')" for e
    using that assms(2) by simp
  let ?next = "if last_used_server st + 1 < length (servers st)
               then last_used_server st + 1 else 0"
  have n: "?next < length (servers st)" using False by simp
  show ?thesis
  proof (cases "pool_strategy server_pool")
    case FIRST
    show ?thesis
    proof (cases "active server_pool")
      case True
      with FIRST False assms(1) show ?thesis by (intro a[of 0]) (simp add: get_server_def)
    next
      case inactive: False
      with FIRST False assms(1) show ?thesis by (intro c[of 0]) (simp_all add: get_server_def)
    qed
  next
    case ROUND_ROBIN
    show ?thesis
    proof (cases "active server_pool")
      case True
      with ROUND_ROBIN False assms(1) show ?thesis
        by (intro a[of "last_used_server st + 1"]) (simp add: get_server_def)
    next
      case inactive: False
      with ROUND_ROBIN False assms(1) have
        "return_server (st\<lparr>last_used_server := ?next\<rparr>) w = Some (r, st', w')"
        by (simp add: get_server_def)
      then show ?thesis using n by (rule c)
    qed
  next
    case RANDOM
    with assms(3) have "active server_pool" by simp
    with RANDOM False assms(1) show ?thesis by (intro b) (simp add: get_server_def)
  next
    case OTHER_STRATEGY
    with False assms(1) show ?thesis by (intro d) (simp add: get_server_def)
  qed
qed

subsection \<open>The properties of the specification\<close>

text \<open>
  C1. The cursor \<open>last_used_server\<close> of a state with a non-empty snapshot is to be a valid
  index after every operation that assigns it, \<open>get_server\<close> for RANDOM without the active
  filter included. That branch draws \<open>randint(0, len(self.servers))\<close>, a range that
  contains the length itself, where the constructor, \<open>refresh\<close> and the random scan draw
  up to \<open>len - 1\<close> (for them and for the other branches of \<open>get_server\<close> the cursor is
  valid, see \<open>refresh_cursor_valid\<close>, \<open>init_cursor_valid\<close> and \<open>get_server_cursor_valid\<close>).
  With one server and the draw 1 the cursor becomes 1, which stays in the state, and the
  indexing that follows raises IndexError.
\<close>

theorem get_server_random_cursor_out_of_range:
  "get_server
     \<lparr>pool_servers = [''ldap1''], pool_states = ([] :: (nat \<times> string ServerPoolState) list),
      active = False, exhaust = False, pool_strategy = RANDOM\<rparr>
     \<lparr>servers = [''ldap1''], strategy = RANDOM, last_used_server = 0\<rparr>
     \<lparr>rng = sconst 1, net = sconst (\<lambda>server. True), probed = []\<rparr>
   = Some (Inl IndexError,
           \<lparr>servers = [''ldap1''], strategy = RANDOM, last_used_server = 1\<rparr>,
           \<lparr>rng = sconst 1, net = sconst (\<lambda>server. True), probed = []\<rparr>)"
  by (simp add: get_server_def randint_def return_server_def getitem_def)

text \<open>
  C2. The circular scan of \<open>find_active_server\<close>. For a non-empty snapshot and a start
  \<open>s\<close> of at most its length, the probes of the scan go to the indices
  \<open>s, s + 1, ..., len - 1, 0, ..., s - 1\<close>, pass after pass: the probe number \<open>j\<close>
  (counted from 0) is for the index at position \<open>j mod len\<close> of that order. If the probe
  number \<open>m\<close> is the first that is answered with true (under \<open>exhaust\<close> it is one of the
  first pass), the scan returns the index that was probed then, it has made exactly the
  probes \<open>0, ..., m\<close> in this order and no other, and it has consumed exactly these answers.
  The order lists every index of the snapshot once, so a pass probes no index twice.
\<close>

theorem find_active_server_circular_scan:
  assumes "srvs \<noteq> []" and "s \<le> length srvs"
    and "exhst \<longrightarrow> m < length srvs"
    and "\<forall>j<m. \<not> (net w !! j) (srvs ! (circular_order (length srvs) s ! (j mod length srvs)))"
    and "(net w !! m) (srvs ! (circular_order (length srvs) s ! (m mod length srvs)))"
  shows "find_active_server srvs s exhst w =
           Some (Inr (circular_order (length srvs) s ! (m mod length srvs)),
                 w\<lparr>net := sdrop (Suc m) (net w),
                   probed := probed w @
                     map (\<lambda>j. srvs ! (circular_order (length srvs) s ! (j mod length srvs)))
                       [0..<Suc m]\<rparr>)
         \<and> distinct (circular_order (length srvs) s)
         \<and> set (circular_order (length srvs) s) = {0..<length srvs}"
  using find_active_server_passes[OF assms(2-5) assms(1)] circular_order_perm[OF assms(2)]
  by blast

theorem find_active_server_circular_scan_witness:
  "find_active_server [''a'', ''b'', ''c''] 2 False
     \<lparr>rng = sconst 0,
      net = [\<lambda>x. False, \<lambda>x. False, \<lambda>x. False, \<lambda>x. x = ''b''] @- sconst (\<lambda>x. x = ''a''),
      probed = []\<rparr>
   = Some (Inr 0,
      \<lparr>rng = sconst 0, net = sconst (\<lambda>x. x = ''a''),
       probed = [''c'', ''a'', ''b'', ''c'', ''a'']\<rparr>)"
proof -
  let ?w = "\<lparr>rng = sconst 0,
      net = [\<lambda>x. False, \<lambda>x. False, \<lambda>x. False, \<lambda>x. x = ''b''] @- sconst (\<lambda>x. x = ''a''),
      probed = []\<rparr> :: string world"
  let ?srvs = "[''a'', ''b'', ''c'']"
  have co: "circular_order (length ?srvs) 2 = [2, 0, 1]"
    by (simp add: circular_order_def upt_conv_Cons)
  have h1: "?srvs \<noteq> []" by simp
  have h2: "2 \<le> length ?srvs" by simp
  have h3: "False \<longrightarrow> 4 < length ?srvs" by simp
  have h4: "\<forall>j<4. \<not> (net ?w !! j) (?srvs ! (circular_order (length ?srvs) 2 ! (j mod length ?srvs)))"
    unfolding co
  proof (intro allI impI)
    fix j :: nat assume "j < 4"
    then consider "j = 0" | "j = 1" | "j = 2" | "j = 3" by linarith
    then show "\<not> (net ?w !! j) (?srvs ! ([2, 0, 1] ! (j mod length ?srvs)))"
    proof cases
      case 1 then show ?thesis by simp
    next
      case 2 then show ?thesis by simp
    next
      case 3 then show ?thesis by (simp add: numeral_2_eq_2)
    next
      case 4 then show ?thesis by (simp add: numeral_3_eq_3)
    qed
  qed
  have len: "length ?srvs = 3" by simp
  have n4: "net ?w !! 4 = (\<lambda>x. x = ''a'')"
    by (simp add: eval_nat_numeral)
  have ix: "[2, 0, 1] ! (4 mod 3) = (0::nat)"
    by simp
  have h5: "(net ?w !! 4) (?srvs ! (circular_order (length ?srvs) 2 ! (4 mod length ?srvs)))"
    unfolding co unfolding len n4 ix by simp
  have tr: "map (\<lambda>j. ?srvs ! ([2, 0, 1] ! (j mod 3))) [0..<Suc 4] =
      [''c'', ''a'', ''b'', ''c'', ''a'']"
    by (simp add: upt_conv_Cons)
  have sd: "sdrop (Suc 4) (net ?w) = sconst (\<lambda>x. x = ''a'')"
    by (simp add: eval_nat_numeral)
  show ?thesis
    using find_active_server_circular_scan[OF h1 h2 h3 h4 h5]
    unfolding co unfolding len tr sd ix by simp
qed

text \<open>
  C3. Exhaustion. With \<open>exhaust\<close> set every call of \<open>get_server\<close> returns or raises. If
  moreover the pool filters by \<open>active\<close>, the strategy is one of the three and the
  snapshot is non-empty with a valid cursor, the call either returns a server that
  answered its probe, the last one probed, after probes of other entries of the snapshot
  (each at most once) that did not answer, and sets the cursor to its index; or it raises
  LDAPServerPoolExhaustedError, leaves the state as it was, and has probed every server of
  the snapshot exactly once (the probes are a permutation of the snapshot), none of them
  answering. This holds for the circular scans of FIRST and ROUND_ROBIN and for the random
  scan. Without \<open>exhaust\<close>, when no probe is ever answered with true, the call does not
  return.
\<close>

theorem get_server_exhaustion:
  "(exhaust server_pool \<longrightarrow> (\<exists>r. get_server server_pool st w = Some r))
   \<and> (exhaust server_pool \<and> active server_pool \<and> servers st \<noteq> []
        \<and> last_used_server st < length (servers st)
        \<and> pool_strategy server_pool \<in> set POOLING_STRATEGIES \<longrightarrow>
      (\<exists>r st' w' ps. get_server server_pool st w = Some (r, st', w') \<and> probed w' = probed w @ ps \<and>
         ((\<exists>i<length (servers st). r = Inr (servers st ! i) \<and> st' = st\<lparr>last_used_server := i\<rparr>
            \<and> ps \<noteq> [] \<and> last ps = servers st ! i
            \<and> (net w !! (length ps - 1)) (last ps) \<and> mset ps \<subseteq># mset (servers st)
            \<and> (\<forall>j<length ps - 1. \<not> (net w !! j) (ps ! j)))
          \<or> ((\<exists>msg. r = Inl (LDAPServerPoolExhaustedError msg)) \<and> st' = st
            \<and> mset ps = mset (servers st) \<and> (\<forall>j<length ps. \<not> (net w !! j) (ps ! j))))))
   \<and> (\<not> exhaust server_pool \<and> active server_pool \<and> servers st \<noteq> []
        \<and> last_used_server st < length (servers st)
        \<and> pool_strategy server_pool \<in> set POOLING_STRATEGIES
        \<and> (\<forall>i x. \<not> (net w !! i) x) \<longrightarrow>
      get_server server_pool st w = None)"
proof (intro conjI impI)
  assume ex: "exhaust server_pool"
  have a: "\<exists>y. find_active_server (servers st) s True w = Some y" for s
    by (subst find_active_server.simps) (auto split: prod.splits sum.splits option.splits)
  have b: "\<exists>y. find_active_random_server (servers st) True w = Some y"
    by (subst find_active_random_server.simps) (auto split: prod.splits sum.splits option.splits)
  have c: "\<exists>r. assign_found st (Some y) = Some r" for y
    by (cases y) (auto simp: assign_found_def return_server_def split: sum.splits)
  show "\<exists>r. get_server server_pool st w = Some r"
    using a[of 0] a[of "last_used_server st + 1"] b c ex
    by (auto simp: get_server_def return_server_def split: sum.splits)
next
  assume h: "exhaust server_pool \<and> active server_pool \<and> servers st \<noteq> []
        \<and> last_used_server st < length (servers st)
        \<and> pool_strategy server_pool \<in> set POOLING_STRATEGIES"
  let ?goal = "\<lambda>found. \<exists>r st' w' ps. assign_found st found = Some (r, st', w') \<and> probed w' = probed w @ ps \<and>
         ((\<exists>i<length (servers st). r = Inr (servers st ! i) \<and> st' = st\<lparr>last_used_server := i\<rparr>
            \<and> ps \<noteq> [] \<and> last ps = servers st ! i
            \<and> (net w !! (length ps - 1)) (last ps) \<and> mset ps \<subseteq># mset (servers st)
            \<and> (\<forall>j<length ps - 1. \<not> (net w !! j) (ps ! j)))
          \<or> ((\<exists>msg. r = Inl (LDAPServerPoolExhaustedError msg)) \<and> st' = st
            \<and> mset ps = mset (servers st) \<and> (\<forall>j<length ps. \<not> (net w !! j) (ps ! j))))"
  have circ: "?goal (find_active_server (servers st) s True w)" if "s \<le> length (servers st)" for s
  proof -
    from find_active_server_exhaust[OF that, of w] obtain r w' ps where
      "find_active_server (servers st) s True w = Some (r, w')" "probed w' = probed w @ ps"
      "scan_outcome (servers st) w ps r" by blast
    then show ?thesis by (rule assign_found_outcome)
  qed
  have rand: "?goal (find_active_random_server (servers st) True w)"
  proof -
    from find_active_random_server_exhaust[of "servers st" w] obtain r w' ps where
      "find_active_random_server (servers st) True w = Some (r, w')" "probed w' = probed w @ ps"
      "scan_outcome (servers st) w ps r" by blast
    then show ?thesis by (rule assign_found_outcome)
  qed
  consider "pool_strategy server_pool = FIRST" | "pool_strategy server_pool = ROUND_ROBIN"
    | "pool_strategy server_pool = RANDOM"
    using h by (auto simp: POOLING_STRATEGIES_def)
  then show "\<exists>r st' w' ps. get_server server_pool st w = Some (r, st', w') \<and> probed w' = probed w @ ps \<and>
         ((\<exists>i<length (servers st). r = Inr (servers st ! i) \<and> st' = st\<lparr>last_used_server := i\<rparr>
            \<and> ps \<noteq> [] \<and> last ps = servers st ! i
            \<and> (net w !! (length ps - 1)) (last ps) \<and> mset ps \<subseteq># mset (servers st)
            \<and> (\<forall>j<length ps - 1. \<not> (net w !! j) (ps ! j)))
          \<or> ((\<exists>msg. r = Inl (LDAPServerPoolExhaustedError msg)) \<and> st' = st
            \<and> mset ps = mset (servers st) \<and> (\<forall>j<length ps. \<not> (net w !! j) (ps ! j))))"
  proof cases
    case 1
    then have "get_server server_pool st w = assign_found st (find_active_server (servers st) 0 True w)"
      using h by (simp add: get_server_def)
    then show ?thesis using circ[of 0] by simp
  next
    case 2
    then have "get_server server_pool st w =
        assign_found st (find_active_server (servers st) (last_used_server st + 1) True w)"
      using h by (simp add: get_server_def)
    then show ?thesis using circ[of "last_used_server st + 1"] h by simp
  next
    case 3
    then have "get_server server_pool st w =
        assign_found st (find_active_random_server (servers st) True w)"
      using h by (simp add: get_server_def)
    then show ?thesis using rand by simp
  qed
next
  assume h: "\<not> exhaust server_pool \<and> active server_pool \<and> servers st \<noteq> []
        \<and> last_used_server st < length (servers st)
        \<and> pool_strategy server_pool \<in> set POOLING_STRATEGIES
        \<and> (\<forall>i x. \<not> (net w !! i) x)"
  consider "pool_strategy server_pool = FIRST" | "pool_strategy server_pool = ROUND_ROBIN"
    | "pool_strategy server_pool = RANDOM"
    using h by (auto simp: POOLING_STRATEGIES_def)
  then show "get_server server_pool st w = None"
  proof cases
    case 1
    then show ?thesis
      using h find_active_server_never[of 0 "servers st" w]
      by (simp add: get_server_def assign_found_def)
  next
    case 2
    then show ?thesis
      using h find_active_server_never[of "last_used_server st + 1" "servers st" w]
      by (simp add: get_server_def assign_found_def)
  next
    case 3
    then show ?thesis
      using h find_active_random_server_never[of w "servers st"]
      by (simp add: get_server_def assign_found_def)
  qed
qed

theorem get_server_exhaustion_witness:
  "get_server
     \<lparr>pool_servers = [''a'', ''b''], pool_states = ([] :: (nat \<times> string ServerPoolState) list),
      active = True, exhaust = True, pool_strategy = ROUND_ROBIN\<rparr>
     \<lparr>servers = [''a'', ''b''], strategy = ROUND_ROBIN, last_used_server = 0\<rparr>
     \<lparr>rng = sconst 0, net = sconst (\<lambda>server. False), probed = []\<rparr>
   = Some (Inl (LDAPServerPoolExhaustedError ''no active server available in server pool''),
           \<lparr>servers = [''a'', ''b''], strategy = ROUND_ROBIN, last_used_server = 0\<rparr>,
           \<lparr>rng = sconst 0, net = sconst (\<lambda>server. False), probed = [''b'', ''a'']\<rparr>)
   \<and> get_server
     \<lparr>pool_servers = [''a'', ''b''], pool_states = ([] :: (nat \<times> string ServerPoolState) list),
      active = True, exhaust = True, pool_strategy = RANDOM\<rparr>
     \<lparr>servers = [''a'', ''b''], strategy = RANDOM, last_used_server = 0\<rparr>
     \<lparr>rng = sconst 1, net = (\<lambda>server. False) ## sconst (\<lambda>server. True), probed = []\<rparr>
   = Some (Inr ''a'',
           \<lparr>servers = [''a'', ''b''], strategy = RANDOM, last_used_server = 0\<rparr>,
           \<lparr>rng = sconst 1, net = sconst (\<lambda>server. True), probed = [''b'', ''a'']\<rparr>)
   \<and> get_server
     \<lparr>pool_servers = [''a'', ''b''], pool_states = ([] :: (nat \<times> string ServerPoolState) list),
      active = True, exhaust = False, pool_strategy = ROUND_ROBIN\<rparr>
     \<lparr>servers = [''a'', ''b''], strategy = ROUND_ROBIN, last_used_server = 0\<rparr>
     \<lparr>rng = sconst 0, net = sconst (\<lambda>server. False), probed = []\<rparr>
   = None
   \<and> get_server
     \<lparr>pool_servers = [''a'', ''b''], pool_states = ([] :: (nat \<times> string ServerPoolState) list),
      active = True, exhaust = False, pool_strategy = RANDOM\<rparr>
     \<lparr>servers = [''a'', ''b''], strategy = RANDOM, last_used_server = 0\<rparr>
     \<lparr>rng = sconst 0, net = sconst (\<lambda>server. False), probed = []\<rparr>
   = None"
proof -
  let ?st = "\<lambda>strat. \<lparr>servers = [''a'', ''b''], strategy = strat, last_used_server = 0\<rparr>"
  let ?p = "\<lambda>ex strat. \<lparr>pool_servers = [''a'', ''b''],
      pool_states = ([] :: (nat \<times> string ServerPoolState) list),
      active = True, exhaust = ex, pool_strategy = strat\<rparr>"
  let ?dead = "\<lparr>rng = sconst 0, net = sconst (\<lambda>server :: string. False), probed = []\<rparr>"
  have never: "\<forall>i x. \<not> (net ?dead !! i) x"
  proof (intro allI)
    fix i and x :: string
    have "sconst (\<lambda>server :: string. False) !! i = (\<lambda>server. False)"
      by (induction i) simp_all
    then show "\<not> (net ?dead !! i) x" by simp
  qed
  have a: "get_server (?p True ROUND_ROBIN) (?st ROUND_ROBIN) ?dead
      = Some (Inl (LDAPServerPoolExhaustedError ''no active server available in server pool''),
           ?st ROUND_ROBIN,
           \<lparr>rng = sconst 0, net = sconst (\<lambda>server. False), probed = [''b'', ''a'']\<rparr>)"
    using get_server_exhaustion[of "?p True ROUND_ROBIN" "?st ROUND_ROBIN" ?dead]
    by (simp add: get_server_def assign_found_def find_active_server.simps scan.simps
        getitem_def check_availability_def)
  have b: "get_server (?p True RANDOM) (?st RANDOM)
       \<lparr>rng = sconst 1, net = (\<lambda>server. False) ## sconst (\<lambda>server. True), probed = []\<rparr>
      = Some (Inr ''a'', ?st RANDOM,
           \<lparr>rng = sconst 1, net = sconst (\<lambda>server. True), probed = [''b'', ''a'']\<rparr>)"
    by (simp add: get_server_def assign_found_def find_active_random_server.simps
        random_pass.simps randint_def list_pop_def check_availability_def return_server_def
        getitem_def)
  have c: "get_server (?p False ROUND_ROBIN) (?st ROUND_ROBIN) ?dead = None"
    using get_server_exhaustion[of "?p False ROUND_ROBIN" "?st ROUND_ROBIN" ?dead] never
    by (simp add: POOLING_STRATEGIES_def)
  have d: "get_server (?p False RANDOM) (?st RANDOM) ?dead = None"
    using get_server_exhaustion[of "?p False RANDOM" "?st RANDOM" ?dead] never
    by (simp add: POOLING_STRATEGIES_def)
  show ?thesis
    using a b c d by simp
qed

text \<open>
  C4. What \<open>add\<close> and \<open>remove\<close> leave behind. A call that raises is to leave the list of
  servers unchanged; \<open>add\<close> with a sequence does not do so, see below. What holds: when a
  call returns, the change is applied in full and \<open>refresh\<close> has run on every registered
  state, in the order of the dictionary, each state then holding the new list and a cursor
  within it; when a call raises LDAPServerPoolError, no state was refreshed and no random
  value drawn, and the list is unchanged for \<open>remove\<close> and for \<open>add\<close> with an argument that
  is not a sequence, while for a sequence it is the old list followed by the servers of the
  elements before the first invalid one.
\<close>

theorem add_remove_outcomes:
  "(ServerPool_add mk_server p arg w = (Inr (), p', w') \<longrightarrow>
      (\<exists>states1. p' = p\<lparr>pool_servers := after_add mk_server (pool_servers p) arg,
                         pool_states := states1\<rparr>
         \<and> refresh_all (pool_servers p') (pool_states p) w = (Inr (), states1, w')
         \<and> map fst states1 = map fst (pool_states p)
         \<and> (\<forall>(c, st) \<in> set states1.
               servers st = pool_servers p' \<and> last_used_server st < length (pool_servers p'))))
   \<and> (ServerPool_add mk_server p arg w = (Inl (LDAPServerPoolError msg), p', w') \<longrightarrow>
        p' = p\<lparr>pool_servers := after_add mk_server (pool_servers p) arg\<rparr> \<and> w' = w
        \<and> ((\<forall>elements. arg \<noteq> ArgSequence elements) \<longrightarrow> p' = p))
   \<and> (ServerPool_remove p server w = (Inr (), p', w') \<longrightarrow>
        server \<in> set (pool_servers p)
        \<and> (\<exists>states1. p' = p\<lparr>pool_servers := remove1 server (pool_servers p),
                             pool_states := states1\<rparr>
         \<and> refresh_all (pool_servers p') (pool_states p) w = (Inr (), states1, w')
         \<and> map fst states1 = map fst (pool_states p)
         \<and> (\<forall>(c, st) \<in> set states1.
               servers st = pool_servers p' \<and> last_used_server st < length (pool_servers p'))))
   \<and> (ServerPool_remove p server w = (Inl (LDAPServerPoolError msg), p', w') \<longrightarrow>
        p' = p \<and> w' = w)"
  using add_ok[of mk_server p arg w p' w'] add_err[of mk_server p arg w msg p' w']
    remove_ok[of p server w p' w'] remove_err[of p server w msg p' w']
  by blast

theorem add_remove_outcomes_witness:
  "ServerPool_add (\<lambda>address. address)
     \<lparr>pool_servers = [''ldap1''],
      pool_states = [(1 :: nat, \<lparr>servers = [''ldap1''], strategy = FIRST, last_used_server = 0\<rparr>)],
      active = True, exhaust = False, pool_strategy = FIRST\<rparr>
     (ArgServer ''ldap2'')
     \<lparr>rng = sconst 1, net = sconst (\<lambda>server. True), probed = []\<rparr>
   = (Inr (),
      \<lparr>pool_servers = [''ldap1'', ''ldap2''],
       pool_states = [(1, \<lparr>servers = [''ldap1'', ''ldap2''], strategy = FIRST,
                           last_used_server = 1\<rparr>)],
       active = True, exhaust = False, pool_strategy = FIRST\<rparr>,
      \<lparr>rng = sconst 1, net = sconst (\<lambda>server. True), probed = []\<rparr>)
   \<and> (\<exists>states1.
        refresh_all [''ldap1'', ''ldap2'']
          [(1 :: nat, \<lparr>servers = [''ldap1''], strategy = FIRST, last_used_server = 0\<rparr>)]
          \<lparr>rng = sconst 1, net = sconst (\<lambda>server. True), probed = []\<rparr>
        = (Inr (), states1, \<lparr>rng = sconst 1, net = sconst (\<lambda>server. True), probed = []\<rparr>))
   \<and> ServerPool_add (\<lambda>address. address)
     \<lparr>pool_servers = [''ldap1''],
      pool_states = [(1 :: nat, \<lparr>servers = [''ldap1''], strategy = FIRST, last_used_server = 0\<rparr>)],
      active = True, exhaust = False, pool_strategy = FIRST\<rparr>
     ArgOther
     \<lparr>rng = sconst 1, net = sconst (\<lambda>server. True), probed = []\<rparr>
   = (Inl (LDAPServerPoolError ''server must be a Server or a list of Server''),
      \<lparr>pool_servers = [''ldap1''],
       pool_states = [(1, \<lparr>servers = [''ldap1''], strategy = FIRST, last_used_server = 0\<rparr>)],
       active = True, exhaust = False, pool_strategy = FIRST\<rparr>,
      \<lparr>rng = sconst 1, net = sconst (\<lambda>server. True), probed = []\<rparr>)
   \<and> ServerPool_remove
     \<lparr>pool_servers = [''ldap1'', ''ldap2''],
      pool_states = [(1 :: nat, \<lparr>servers = [''ldap1'', ''ldap2''], strategy = FIRST,
                                 last_used_server = 1\<rparr>)],
      active = True, exhaust = False, pool_strategy = FIRST\<rparr>
     ''ldap1''
     \<lparr>rng = sconst 1, net = sconst (\<lambda>server. True), probed = []\<rparr>
   = (Inr (),
      \<lparr>pool_servers = [''ldap2''],
       pool_states = [(1, \<lparr>servers = [''ldap2''], strategy = FIRST, last_used_server = 0\<rparr>)],
       active = True, exhaust = False, pool_strategy = FIRST\<rparr>,
      \<lparr>rng = sconst 1, net = sconst (\<lambda>server. True), probed = []\<rparr>)
   \<and> ''ldap1'' \<in> set [''ldap1'', ''ldap2'']
   \<and> ServerPool_remove
     \<lparr>pool_servers = [''ldap1''],
      pool_states = [(1 :: nat, \<lparr>servers = [''ldap1''], strategy = FIRST, last_used_server = 0\<rparr>)],
      active = True, exhaust = False, pool_strategy = FIRST\<rparr>
     ''ldap3''
     \<lparr>rng = sconst 1, net = sconst (\<lambda>server. True), probed = []\<rparr>
   = (Inl (LDAPServerPoolError ''server not in server pool''),
      \<lparr>pool_servers = [''ldap1''],
       pool_states = [(1, \<lparr>servers = [''ldap1''], strategy = FIRST, last_used_server = 0\<rparr>)],
       active = True, exhaust = False, pool_strategy = FIRST\<rparr>,
      \<lparr>rng = sconst 1, net = sconst (\<lambda>server. True), probed = []\<rparr>)"
proof -
  let ?w = "\<lparr>rng = sconst 1, net = sconst (\<lambda>server :: string. True), probed = []\<rparr>"
  let ?p1 = "\<lparr>pool_servers = [''ldap1''],
      pool_states = [(1 :: nat, \<lparr>servers = [''ldap1''], strategy = FIRST, last_used_server = 0\<rparr>)],
      active = True, exhaust = False, pool_strategy = FIRST\<rparr>"
  let ?p2 = "\<lparr>pool_servers = [''ldap1'', ''ldap2''],
      pool_states = [(1 :: nat, \<lparr>servers = [''ldap1'', ''ldap2''], strategy = FIRST,
                                 last_used_server = 1\<rparr>)],
      active = True, exhaust = False, pool_strategy = FIRST\<rparr>"
  let ?p3 = "\<lparr>pool_servers = [''ldap2''],
       pool_states = [(1 :: nat, \<lparr>servers = [''ldap2''], strategy = FIRST, last_used_server = 0\<rparr>)],
       active = True, exhaust = False, pool_strategy = FIRST\<rparr>"
  have a: "ServerPool_add (\<lambda>address. address) ?p1 (ArgServer ''ldap2'') ?w = (Inr (), ?p2, ?w)"
    by (simp add: ServerPool_add_def notify_def refresh_def randint_def)
  have b: "ServerPool_add (\<lambda>address. address) ?p1 ArgOther ?w =
      (Inl (LDAPServerPoolError ''server must be a Server or a list of Server''), ?p1, ?w)"
    by (simp add: ServerPool_add_def)
  have c: "ServerPool_remove ?p2 ''ldap1'' ?w = (Inr (), ?p3, ?w)"
    by (simp add: ServerPool_remove_def notify_def refresh_def randint_def)
  have d: "ServerPool_remove ?p1 ''ldap3'' ?w =
      (Inl (LDAPServerPoolError ''server not in server pool''), ?p1, ?w)"
    by (simp add: ServerPool_remove_def)
  have "\<exists>states1. refresh_all (pool_servers ?p2) (pool_states ?p1) ?w = (Inr (), states1, ?w)"
    using a add_remove_outcomes[where mk_server = "\<lambda>address. address" and p = ?p1
        and arg = "ArgServer ''ldap2''" and w = ?w and p' = ?p2 and w' = ?w]
    by blast
  then have e: "\<exists>states1. refresh_all [''ldap1'', ''ldap2'']
          [(1 :: nat, \<lparr>servers = [''ldap1''], strategy = FIRST, last_used_server = 0\<rparr>)] ?w
        = (Inr (), states1, ?w)"
    by simp
  have "''ldap1'' \<in> set (pool_servers ?p2)"
    using c add_remove_outcomes[where p = ?p2 and server = "''ldap1''" and w = ?w
        and p' = ?p3 and w' = ?w]
    by blast
  then have f: "''ldap1'' \<in> set [''ldap1'', ''ldap2'']"
    by simp
  show ?thesis
    using a e b c f d by blast
qed

text \<open>
  C4, the failing case: \<open>add\<close> of the sequence of a server and an invalid element raises,
  with the server appended and the registered state still holding the old snapshot.
\<close>

theorem add_sequence_partial_counterexample:
  "ServerPool_add (\<lambda>address. address)
     \<lparr>pool_servers = [''ldap1''],
      pool_states = [(1 :: nat, \<lparr>servers = [''ldap1''], strategy = FIRST, last_used_server = 0\<rparr>)],
      active = True, exhaust = False, pool_strategy = FIRST\<rparr>
     (ArgSequence [ElemServer ''ldap2'', ElemOther])
     \<lparr>rng = sconst 0, net = sconst (\<lambda>server. True), probed = []\<rparr>
   = (Inl (LDAPServerPoolError ''server in ServerPool must be a Server''),
      \<lparr>pool_servers = [''ldap1'', ''ldap2''],
       pool_states = [(1, \<lparr>servers = [''ldap1''], strategy = FIRST, last_used_server = 0\<rparr>)],
       active = True, exhaust = False, pool_strategy = FIRST\<rparr>,
      \<lparr>rng = sconst 0, net = sconst (\<lambda>server. True), probed = []\<rparr>)"
  by (simp add: ServerPool_add_def)

text \<open>
  C5. \<open>initialize\<close> on a pool without servers is to fail with the pool's own error for an
  empty pool and to register no state. The call does fail and registers nothing, the pool
  and the world are left as they were; but what is raised is the ValueError of
  \<open>randint(0, -1)\<close> inside \<open>refresh\<close>, not the LDAPServerPoolError that \<open>get_server\<close>
  raises for an empty snapshot.
\<close>

theorem initialize_empty_pool:
  "pool_servers server_pool = [] \<Longrightarrow>
   ServerPool_initialize server_pool connection w = (Inl ValueError, server_pool, w)"
  by (simp add: ServerPool_initialize_def ServerPoolState_init_def refresh_empty)

theorem initialize_empty_pool_witness:
  "ServerPool_initialize
     \<lparr>pool_servers = ([] :: string list), pool_states = [], active = True, exhaust = False,
      pool_strategy = ROUND_ROBIN\<rparr> (1 :: nat)
     \<lparr>rng = sconst 0, net = sconst (\<lambda>server. True), probed = []\<rparr>
   = (Inl ValueError,
      \<lparr>pool_servers = [], pool_states = [], active = True, exhaust = False,
       pool_strategy = ROUND_ROBIN\<rparr>,
      \<lparr>rng = sconst 0, net = sconst (\<lambda>server. True), probed = []\<rparr>)"
  using initialize_empty_pool
    [of "\<lparr>pool_servers = ([] :: string list), pool_states = [], active = True,
          exhaust = False, pool_strategy = ROUND_ROBIN\<rparr>"
        "1 :: nat" "\<lparr>rng = sconst 0, net = sconst (\<lambda>server. True), probed = []\<rparr>"]
  by simp

text \<open>
  The same ValueError leaves \<open>remove\<close> half done when it takes the last server from a pool
  with a registered state: the list is emptied, the snapshot of the state too, and the
  call raises out of \<open>refresh\<close>.
\<close>

lemma remove_last_server_raises:
  "ServerPool_remove
     \<lparr>pool_servers = [''ldap1''],
      pool_states = [(1 :: nat, \<lparr>servers = [''ldap1''], strategy = FIRST, last_used_server = 0\<rparr>)],
      active = True, exhaust = False, pool_strategy = FIRST\<rparr>
     ''ldap1''
     \<lparr>rng = sconst 0, net = sconst (\<lambda>server. True), probed = []\<rparr>
   = (Inl ValueError,
      \<lparr>pool_servers = [],
       pool_states = [(1, \<lparr>servers = [], strategy = FIRST, last_used_server = 0\<rparr>)],
       active = True, exhaust = False, pool_strategy = FIRST\<rparr>,
      \<lparr>rng = sconst 0, net = sconst (\<lambda>server. True), probed = []\<rparr>)"
  by (simp add: ServerPool_remove_def notify_def refresh_def randint_def)

text \<open>
  C6. Round robin without the active filter. For a connection whose state holds a
  non-empty snapshot of \<open>N\<close> servers and a cursor \<open>c < N\<close>, \<open>N\<close> consecutive calls of
  \<open>get_server\<close> return the servers at the indices \<open>c + 1, ..., N - 1, 0, ..., c\<close> in this
  order, which is every index once, and no call raises; the next \<open>N\<close> calls return the same
  sequence again.
\<close>

theorem round_robin_cycle:
  assumes "pool_strategy p = ROUND_ROBIN" and "\<not> active p"
    and "map_of (pool_states p) c = Some st"
    and "servers st \<noteq> []" and "last_used_server st < length (servers st)"
  shows "\<exists>p1 p2.
      get_server_times (length (servers st)) p c w =
        Some (map (\<lambda>i. Inr (servers st ! i))
                (circular_order (length (servers st)) (last_used_server st + 1)), p1, w)
    \<and> get_server_times (length (servers st)) p1 c w =
        Some (map (\<lambda>i. Inr (servers st ! i))
                (circular_order (length (servers st)) (last_used_server st + 1)), p2, w)
    \<and> distinct (circular_order (length (servers st)) (last_used_server st + 1))
    \<and> set (circular_order (length (servers st)) (last_used_server st + 1))
        = {0..<length (servers st)}"
proof -
  let ?n = "length (servers st)"
  let ?rs = "map (\<lambda>i. Inr (servers st ! i)) (circular_order ?n (last_used_server st + 1))"
  from round_robin_times[OF assms, of ?n w] obtain p1 where
    t1: "get_server_times ?n p c w =
           Some (map (\<lambda>k. Inr (servers st ! ((last_used_server st + 1 + k) mod ?n))) [0..<?n], p1, w)"
    and inv1: "pool_strategy p1 = ROUND_ROBIN" "\<not> active p1"
    and cur1: "map_of (pool_states p1) c =
             Some (st\<lparr>last_used_server := (last_used_server st + ?n) mod ?n\<rparr>)"
    by blast
  have same: "st\<lparr>last_used_server := (last_used_server st + ?n) mod ?n\<rparr> = st"
    using assms(5) by simp
  from round_robin_times[OF inv1 cur1[unfolded same] assms(4,5), of ?n w] obtain p2 where
    t2: "get_server_times ?n p1 c w =
           Some (map (\<lambda>k. Inr (servers st ! ((last_used_server st + 1 + k) mod ?n))) [0..<?n], p2, w)"
    by blast
  have ord: "map (\<lambda>k. Inr (servers st ! ((last_used_server st + 1 + k) mod ?n))) [0..<?n] = ?rs"
    using round_robin_order[OF assms(5), of "\<lambda>i. Inr (servers st ! i)"] .
  have perm: "distinct (circular_order ?n (last_used_server st + 1))
      \<and> set (circular_order ?n (last_used_server st + 1)) = {0..<?n}"
    using assms(5) by (intro circular_order_perm) simp
  show ?thesis
    using t1 t2 perm unfolding ord by blast
qed

theorem round_robin_cycle_witness:
  "\<exists>p1 p2. get_server_times 3
       \<lparr>pool_servers = [''a'', ''b'', ''c''],
        pool_states = [(1 :: nat, \<lparr>servers = [''a'', ''b'', ''c''], strategy = ROUND_ROBIN,
                                   last_used_server = 1\<rparr>)],
        active = False, exhaust = False, pool_strategy = ROUND_ROBIN\<rparr> 1
       \<lparr>rng = sconst 0, net = sconst (\<lambda>server. False), probed = []\<rparr>
     = Some ([Inr ''c'', Inr ''a'', Inr ''b''], p1,
             \<lparr>rng = sconst 0, net = sconst (\<lambda>server. False), probed = []\<rparr>)
   \<and> get_server_times 3 p1 1 \<lparr>rng = sconst 0, net = sconst (\<lambda>server. False), probed = []\<rparr>
     = Some ([Inr ''c'', Inr ''a'', Inr ''b''], p2,
             \<lparr>rng = sconst 0, net = sconst (\<lambda>server. False), probed = []\<rparr>)"
proof -
  let ?st = "\<lparr>servers = [''a'', ''b'', ''c''], strategy = ROUND_ROBIN, last_used_server = 1\<rparr>"
  let ?p = "\<lparr>pool_servers = [''a'', ''b'', ''c''], pool_states = [(1 :: nat, ?st)],
        active = False, exhaust = False, pool_strategy = ROUND_ROBIN\<rparr>"
  let ?w = "\<lparr>rng = sconst 0, net = sconst (\<lambda>server :: string. False), probed = []\<rparr>"
  have h1: "pool_strategy ?p = ROUND_ROBIN" by simp
  have h2: "\<not> active ?p" by simp
  have h3: "map_of (pool_states ?p) 1 = Some ?st" by simp
  have h4: "servers ?st \<noteq> []" by simp
  have h5: "last_used_server ?st < length (servers ?st)" by simp
  have len: "length (servers ?st) = 3" by simp
  have co: "circular_order 3 (last_used_server ?st + 1) = [2, 0, 1]"
    by (simp add: circular_order_def upt_conv_Cons)
  from round_robin_cycle[OF h1 h2 h3 h4 h5, of ?w] obtain p1 p2 where
    "get_server_times 3 ?p 1 ?w = Some ([Inr ''c'', Inr ''a'', Inr ''b''], p1, ?w)"
    "get_server_times 3 p1 1 ?w = Some ([Inr ''c'', Inr ''a'', Inr ''b''], p2, ?w)"
    unfolding len co by auto
  then show ?thesis
    by blast
qed

text \<open>
  C7. \<open>add\<close> with a single \<open>Server\<close> leaves the list of servers as it is when an equal
  server is present and appends it otherwise; \<open>add\<close> with a sequence appends the server of
  every element, up to the first element that is neither a server nor a string (none, for
  a sequence of valid elements), without looking at the servers present. So the sequence
  of the one element \<open>e\<close> appends \<open>e\<close> and yields a duplicate when \<open>e\<close> is in the list.
\<close>

theorem add_dedup_asymmetry:
  "pool_servers (fst (snd (ServerPool_add mk_server server_pool (ArgServer e) w))) =
     (if e \<in> set (pool_servers server_pool) then pool_servers server_pool
      else pool_servers server_pool @ [e])
   \<and> pool_servers (fst (snd (ServerPool_add mk_server server_pool (ArgSequence elements) w))) =
       pool_servers server_pool @
         element_servers mk_server (takeWhile (\<lambda>el. el \<noteq> ElemOther) elements)
   \<and> (ElemOther \<notin> set elements \<longrightarrow>
        pool_servers (fst (snd (ServerPool_add mk_server server_pool (ArgSequence elements) w))) =
          pool_servers server_pool @ element_servers mk_server elements)
   \<and> pool_servers (fst (snd (ServerPool_add mk_server server_pool (ArgSequence [ElemServer e]) w))) =
       pool_servers server_pool @ [e]"
proof -
  have single: "pool_servers (fst (snd (ServerPool_add mk_server server_pool (ArgServer e) w))) =
     (if e \<in> set (pool_servers server_pool) then pool_servers server_pool
      else pool_servers server_pool @ [e])"
    by (simp add: ServerPool_add_def notify_pool_servers)
  have seq: "pool_servers (fst (snd (ServerPool_add mk_server server_pool (ArgSequence els) w))) =
       pool_servers server_pool @
         element_servers mk_server (takeWhile (\<lambda>el. el \<noteq> ElemOther) els)" for els
    by (simp add: ServerPool_add_def add_elements_prefix notify_pool_servers)
  have all: "takeWhile (\<lambda>el. el \<noteq> ElemOther) elements = elements"
    if "ElemOther \<notin> set elements"
    using that by (induction elements) auto
  have one: "pool_servers server_pool @
         element_servers mk_server (takeWhile (\<lambda>el. el \<noteq> ElemOther) [ElemServer e]) =
       pool_servers server_pool @ [e]"
    by (simp add: element_servers_def)
  show ?thesis
    using single seq [of elements] seq [of "[ElemServer e]"] all one
    by presburger
qed

theorem add_dedup_asymmetry_witness:
  "pool_servers (fst (snd (ServerPool_add (\<lambda>address. address)
       \<lparr>pool_servers = [''ldap1''], pool_states = ([] :: (nat \<times> string ServerPoolState) list),
        active = True, exhaust = False, pool_strategy = FIRST\<rparr>
       (ArgServer ''ldap1'')
       \<lparr>rng = sconst 0, net = sconst (\<lambda>server. True), probed = []\<rparr>))) = [''ldap1'']
   \<and> pool_servers (fst (snd (ServerPool_add (\<lambda>address. address)
       \<lparr>pool_servers = [''ldap1''], pool_states = ([] :: (nat \<times> string ServerPoolState) list),
        active = True, exhaust = False, pool_strategy = FIRST\<rparr>
       (ArgSequence [ElemServer ''ldap1''])
       \<lparr>rng = sconst 0, net = sconst (\<lambda>server. True), probed = []\<rparr>))) = [''ldap1'', ''ldap1'']"
  using add_dedup_asymmetry
    [of "\<lambda>address. address"
        "\<lparr>pool_servers = [''ldap1''], pool_states = ([] :: (nat \<times> string ServerPoolState) list),
          active = True, exhaust = False, pool_strategy = FIRST\<rparr>"
        "''ldap1''" "\<lparr>rng = sconst 0, net = sconst (\<lambda>server. True), probed = []\<rparr>"
        "[ElemServer ''ldap1'']"]
  by (simp add: element_servers_def)

text \<open>
  C8. \<open>add\<close> with a string always makes a server of the address and appends it, whether or
  not an equal server is in the list; the membership test is made only for an argument
  that is a \<open>Server\<close>. With an equal server present the list then holds it twice, where
  adding the server object itself changes nothing.
\<close>

theorem add_string_never_dedups:
  "pool_servers (fst (snd (ServerPool_add mk_server server_pool (ArgString address) w))) =
     pool_servers server_pool @ [mk_server address]
   \<and> (mk_server address \<in> set (pool_servers server_pool) \<longrightarrow>
        pool_servers
          (fst (snd (ServerPool_add mk_server server_pool (ArgServer (mk_server address)) w))) =
          pool_servers server_pool
        \<and> \<not> distinct
            (pool_servers
               (fst (snd (ServerPool_add mk_server server_pool (ArgString address) w)))))"
  by (simp add: ServerPool_add_def notify_pool_servers)

theorem add_string_never_dedups_witness:
  "pool_servers (fst (snd (ServerPool_add (\<lambda>address. address)
       \<lparr>pool_servers = [''ldap1''], pool_states = ([] :: (nat \<times> string ServerPoolState) list),
        active = True, exhaust = False, pool_strategy = FIRST\<rparr>
       (ArgString ''ldap1'')
       \<lparr>rng = sconst 0, net = sconst (\<lambda>server. True), probed = []\<rparr>))) = [''ldap1'', ''ldap1'']
   \<and> pool_servers (fst (snd (ServerPool_add (\<lambda>address. address)
       \<lparr>pool_servers = [''ldap1''], pool_states = ([] :: (nat \<times> string ServerPoolState) list),
        active = True, exhaust = False, pool_strategy = FIRST\<rparr>
       (ArgServer ''ldap1'')
       \<lparr>rng = sconst 0, net = sconst (\<lambda>server. True), probed = []\<rparr>))) = [''ldap1'']"
  using add_string_never_dedups
    [of "\<lambda>address. address"
        "\<lparr>pool_servers = [''ldap1''], pool_states = ([] :: (nat \<times> string ServerPoolState) list),
          active = True, exhaust = False, pool_strategy = FIRST\<rparr>"
        "''ldap1''" "\<lparr>rng = sconst 0, net = sconst (\<lambda>server. True), probed = []\<rparr>"]
  by simp

text \<open>
  C9. The result of the random scan. Whenever \<open>find_active_random_server\<close> returns an
  index \<open>r\<close>, \<open>r\<close> is a valid index of the snapshot, the server at \<open>r\<close> equals the server
  that was probed last and answered, and no server before \<open>r\<close> equals it: \<open>r\<close> is the
  first occurrence. With the snapshot \<open>[a, a]\<close> and the draw 1 the element at position 1
  is popped and probed, and the result is 0.
\<close>

theorem random_scan_first_occurrence:
  "(find_active_random_server srvs exhst w = Some (Inr r, w') \<longrightarrow>
      r < length srvs
      \<and> (\<exists>ps. probed w' = probed w @ ps \<and> ps \<noteq> []
            \<and> srvs ! r = last ps
            \<and> (net w !! (length ps - 1)) (last ps)
            \<and> (\<forall>j<r. srvs ! j \<noteq> last ps)))
   \<and> randint 0 (int (length [a, a]) - 1) \<lparr>rng = 1 ## g, net = (\<lambda>x. True) ## n, probed = p\<rparr>
       = Inr (1, \<lparr>rng = g, net = (\<lambda>x. True) ## n, probed = p\<rparr>)
   \<and> list_pop [a, a] 1 = Inr ([a, a] ! 1, [a])
   \<and> find_active_random_server [a, a] True \<lparr>rng = 1 ## g, net = (\<lambda>x. True) ## n, probed = p\<rparr>
       = Some (Inr 0, \<lparr>rng = g, net = n, probed = p @ [a]\<rparr>)"
proof -
  have gen: "r < length srvs
      \<and> (\<exists>ps. probed w' = probed w @ ps \<and> ps \<noteq> []
            \<and> srvs ! r = last ps
            \<and> (net w !! (length ps - 1)) (last ps)
            \<and> (\<forall>j<r. srvs ! j \<noteq> last ps))"
    if ret: "find_active_random_server srvs exhst w = Some (Inr r, w')"
  proof -
    from find_active_random_server_returns_aux[OF ret] obtain ps where
      ps: "probed w' = probed w @ ps" "ps \<noteq> []" "list_index srvs (last ps) = Inr r"
        "(net w !! (length ps - 1)) (last ps)" by blast
    from list_index_first[OF ps(3)] have
      "r < length srvs" "srvs ! r = last ps" "\<forall>j<r. srvs ! j \<noteq> last ps" by simp_all
    then show ?thesis using ps by blast
  qed
  have r: "randint 0 (int (length [a, a]) - 1) \<lparr>rng = 1 ## g, net = (\<lambda>x. True) ## n, probed = p\<rparr>
       = Inr (1, \<lparr>rng = g, net = (\<lambda>x. True) ## n, probed = p\<rparr>)"
    by (simp add: randint_def)
  have po: "list_pop [a, a] 1 = Inr ([a, a] ! 1, [a])"
    by (simp add: list_pop_def)
  have ex: "find_active_random_server [a, a] True \<lparr>rng = 1 ## g, net = (\<lambda>x. True) ## n, probed = p\<rparr>
       = Some (Inr 0, \<lparr>rng = g, net = n, probed = p @ [a]\<rparr>)"
    by (simp add: find_active_random_server.simps random_pass.simps randint_def list_pop_def
        check_availability_def)
  show ?thesis
    using gen r po ex by blast
qed

theorem random_scan_first_occurrence_witness:
  "find_active_random_server [''x'', ''y'', ''x''] False
     \<lparr>rng = 2 ## 1 ## sconst 0, net = (\<lambda>server. False) ## sconst (\<lambda>server. server = ''x''),
      probed = []\<rparr>
   = Some (Inr 0, \<lparr>rng = sconst 0, net = sconst (\<lambda>server. server = ''x''),
                  probed = [''x'', ''y'', ''x'']\<rparr>)
   \<and> (0 :: nat) < length [''x'', ''y'', ''x'']
   \<and> (\<exists>ps. [''x'', ''y'', ''x''] = ps \<and> ps \<noteq> [] \<and> [''x'', ''y'', ''x''] ! 0 = last ps)"
proof -
  let ?w = "\<lparr>rng = 2 ## 1 ## sconst 0,
      net = (\<lambda>server. False) ## sconst (\<lambda>server. server = ''x''), probed = []\<rparr> :: string world"
  let ?w' = "\<lparr>rng = sconst 0, net = sconst (\<lambda>server. server = ''x''),
                  probed = [''x'', ''y'', ''x'']\<rparr> :: string world"
  have a: "find_active_random_server [''x'', ''y'', ''x''] False ?w = Some (Inr 0, ?w')"
    by (simp add: find_active_random_server.simps random_pass.simps randint_def list_pop_def
        check_availability_def)
  note c = mp[OF random_scan_first_occurrence
                   [of "[''x'', ''y'', ''x'']" False ?w 0 ?w', THEN conjunct1] a]
  from c have c1: "(0 :: nat) < length [''x'', ''y'', ''x'']"
    by (rule conjunct1)
  from c obtain ps where "probed ?w' = probed ?w @ ps" "ps \<noteq> []" "[''x'', ''y'', ''x''] ! 0 = last ps"
    by (elim conjE exE)
  then have c2: "\<exists>ps. [''x'', ''y'', ''x''] = ps \<and> ps \<noteq> [] \<and> [''x'', ''y'', ''x''] ! 0 = last ps"
    by (intro exI[of _ ps]) simp
  show ?thesis
    using a c1 c2 by (intro conjI)
qed

text \<open>
  C10. Constructing a pool with \<open>servers=None\<close>, a known strategy and flags that pass the
  check of \<open>exhaust\<close> against \<open>active\<close> succeeds: the pool has length 0 and no registered
  state, and no random value is drawn. The empty pool is turned down only afterwards:
  \<open>initialize\<close> raises and registers nothing, and so \<open>get_server\<close> raises for every
  connection.
\<close>

theorem empty_construction:
  "strat \<in> set POOLING_STRATEGIES \<Longrightarrow> \<not> (exhst \<and> \<not> actv) \<Longrightarrow>
   (\<exists>p. ServerPool_init mk_server ArgNone strat actv exhst w = (Inr p, w)
      \<and> p = \<lparr>pool_servers = [], pool_states = [], active = actv, exhaust = exhst,
              pool_strategy = strat\<rparr>
      \<and> ServerPool_len p = 0
      \<and> pool_states p = []
      \<and> (\<exists>e. ServerPool_initialize p connection w = (Inl e, p, w))
      \<and> (\<exists>e. ServerPool_get_server p connection w = Some (Inl e, p, w)))"
  by (simp add: ServerPool_init_def ServerPool_len_def ServerPool_initialize_def
      ServerPoolState_init_def refresh_empty ServerPool_get_server_def)

theorem empty_construction_witness:
  "ROUND_ROBIN \<in> set POOLING_STRATEGIES \<and> \<not> (False \<and> \<not> True)
   \<and> (\<exists>p. ServerPool_init (\<lambda>address. address) ArgNone ROUND_ROBIN True False
             \<lparr>rng = sconst 0, net = sconst (\<lambda>server :: string. True), probed = []\<rparr>
           = (Inr p, \<lparr>rng = sconst 0, net = sconst (\<lambda>server. True), probed = []\<rparr>)
        \<and> ServerPool_len (p :: (nat, string) ServerPool) = 0
        \<and> pool_states p = [])"
proof -
  have s: "ROUND_ROBIN \<in> set POOLING_STRATEGIES"
    by (simp add: POOLING_STRATEGIES_def)
  have f: "\<not> (False \<and> \<not> True)"
    by simp
  show ?thesis
    using s empty_construction
      [OF s f, of "\<lambda>address. address"
         "\<lparr>rng = sconst 0, net = sconst (\<lambda>server :: string. True), probed = []\<rparr>" "1 :: nat"]
    by auto
qed

end
